theory Spec2Isabelle
  imports Complex_Main "HOL-Library.Char_ord" "HOL-Library.List_Lexorder" "HOL-Library.Multiset"
    "HOL-Library.AList"
begin

section \<open>Text primitives used by the dashboard parser\<close>

text \<open>
  Python strings are modelled as \<^typ>\<open>string\<close>. The model follows the source on ASCII
  text: there \<^verbatim>\<open>unicodedata.normalize("NFKD", s)\<close> is the identity and no character is
  combining, \<^verbatim>\<open>\d\<close> is \<^verbatim>\<open>[0-9]\<close>, \<^verbatim>\<open>\w\<close> is \<^verbatim>\<open>[A-Za-z0-9_]\<close> and \<^verbatim>\<open>\s\<close> is the set of
  ASCII white space accepted by \<^verbatim>\<open>str.isspace\<close>. Python's \<^verbatim>\<open>int\<close> is unbounded; the
  conversion \<^verbatim>\<open>int(n)\<close> of a string is not total (see \<open>int_of_digits\<close>).
\<close>

text \<open>The exceptions of the interpreter that the modelled code can raise.\<close>

datatype py_error = KeyError | AttributeError | TypeError | ValueError | OverflowError

definition is_digit :: "char \<Rightarrow> bool" where
  "is_digit c = (c \<in> set ''0123456789'')"

definition is_alpha :: "char \<Rightarrow> bool" where
  "is_alpha c = (c \<in> set ''abcdefghijklmnopqrstuvwxyzABCDEFGHIJKLMNOPQRSTUVWXYZ'')"

definition is_word :: "char \<Rightarrow> bool" where
  "is_word c = (is_digit c \<or> is_alpha c \<or> c = CHR ''_'')"

definition is_space :: "char \<Rightarrow> bool" where
  "is_space c = (c \<in> set [CHR '' '', CHR 0x09, CHR 0x0A, CHR 0x0B, CHR 0x0C, CHR 0x0D,
                            CHR 0x1C, CHR 0x1D, CHR 0x1E, CHR 0x1F])"

text \<open>\<^verbatim>\<open>s.upper()\<close> on ASCII letters.\<close>

definition upper_char :: "char \<Rightarrow> char" where
  "upper_char c =
     (case map_of (zip ''abcdefghijklmnopqrstuvwxyz'' ''ABCDEFGHIJKLMNOPQRSTUVWXYZ'') c of
        Some u \<Rightarrow> u
      | None \<Rightarrow> c)"

text \<open>\<^verbatim>\<open>re.sub(r"\s+", " ", s)\<close>: every maximal run of white space becomes one blank.\<close>

function collapse_ws :: "string \<Rightarrow> string" where
  "collapse_ws [] = []"
| "collapse_ws (c # cs) =
     (if is_space c then CHR '' '' # collapse_ws (dropWhile is_space cs)
      else c # collapse_ws cs)"
  by pat_completeness auto
termination
  by (relation "measure length") (simp_all add: length_dropWhile_le less_Suc_eq_le)

text \<open>\<^verbatim>\<open>s.strip()\<close>.\<close>

definition strip :: "string \<Rightarrow> string" where
  "strip s = rev (dropWhile is_space (rev (dropWhile is_space s)))"

text \<open>\<^verbatim>\<open>_norm\<close>: empty stays empty; otherwise upper-case, collapse white space, strip.\<close>

definition norm :: "string \<Rightarrow> string" where
  "norm s = (if s = [] then [] else strip (collapse_ws (map upper_char s)))"

text \<open>
  \<^verbatim>\<open>str.find\<close>: index of the first occurrence (\<open>None\<close> for Python's \<^verbatim>\<open>-1\<close>), and the
  substring test \<^verbatim>\<open>sub in s\<close>.
\<close>

fun str_find :: "string \<Rightarrow> string \<Rightarrow> nat option" where
  "str_find sub [] = (if sub = [] then Some 0 else None)"
| "str_find sub (c # cs) =
     (if take (length sub) (c # cs) = sub then Some 0
      else map_option Suc (str_find sub cs))"

definition str_in :: "string \<Rightarrow> string \<Rightarrow> bool" where
  "str_in sub s = (str_find sub s \<noteq> None)"

text \<open>The pattern \<^verbatim>\<open>\d{2}:\d{2}:\d{2}\<close> matched at the head of a text.\<close>

fun hms_prefix :: "string \<Rightarrow> bool" where
  "hms_prefix (a # b # c # d # e # f # g # h # _) =
     (is_digit a \<and> is_digit b \<and> c = CHR '':'' \<and> is_digit d \<and> is_digit e \<and> f = CHR '':''
      \<and> is_digit g \<and> is_digit h)"
| "hms_prefix _ = False"

text \<open>
  \<^verbatim>\<open>re.sub(r"\d{2}:\d{2}:\d{2}", " ", text)\<close>: the scan goes left to right; a match is
  replaced by one blank and the scan resumes behind it (matches do not overlap).
\<close>

fun sub_hms :: "string \<Rightarrow> string" where
  "sub_hms [] = []"
| "sub_hms (c # cs) =
     (if hms_prefix (c # cs) then CHR '' '' # sub_hms (drop 7 cs) else c # sub_hms cs)"

text \<open>
  A substring of the shape \<^verbatim>\<open>HH:MM:SS\<close> that begins in the seven characters before the
  offset \<open>p\<close> of \<open>s\<close>, and so overlaps a substring of that shape at \<open>p\<close>.
\<close>

definition overlapped :: "string \<Rightarrow> nat \<Rightarrow> bool" where
  "overlapped s p = list_ex (\<lambda>k. k \<le> p \<and> hms_prefix (drop (p - k) s)) [1, 2, 3, 4, 5, 6, 7]"

text \<open>
  \<^verbatim>\<open>re.findall(r"\b\d+\b", text)\<close>. The flag tells whether the character before the
  current position is a word character. A match starts at a digit behind a word boundary,
  takes the whole run of digits (\<^verbatim>\<open>\d+\<close> is greedy) and needs a word boundary behind
  the run; a shorter run would end between two digits, where there is no boundary.
\<close>

function findall_ints :: "bool \<Rightarrow> string \<Rightarrow> string list" where
  "findall_ints prev [] = []"
| "findall_ints prev (c # cs) =
     (if \<not> prev \<and> is_digit c then
        (case dropWhile is_digit cs of
           [] \<Rightarrow> [c # takeWhile is_digit cs]
         | d # ds \<Rightarrow>
             if is_word d then findall_ints True cs
             else (c # takeWhile is_digit cs) # findall_ints True (d # ds))
      else findall_ints (is_word c) cs)"
  by pat_completeness auto
termination
proof (relation "measure (\<lambda>(prev, s). length s)")
  fix prev :: bool and c :: char and cs :: string and d :: char and ds :: string
  assume "dropWhile is_digit cs = d # ds"
  then have "length (d # ds) \<le> length cs"
    by (metis length_dropWhile_le)
  then show "((True, d # ds), (prev, c # cs)) \<in> measure (\<lambda>(prev, s). length s)"
    by simp
qed simp_all

text \<open>
  \<^verbatim>\<open>int(n)\<close> on a string of decimal digits. The interpreter (CPython from 3.11, with its
  default \<^verbatim>\<open>sys.int_info.default_max_str_digits\<close>) refuses a string of more than 4300
  digits, leading zeros included, with \<^verbatim>\<open>ValueError\<close>.
\<close>

definition digit_val :: "char \<Rightarrow> int" where
  "digit_val c = (case map_of (zip ''0123456789'' [0, 1, 2, 3, 4, 5, 6, 7, 8, 9]) c of
                    Some v \<Rightarrow> v
                  | None \<Rightarrow> 0)"

definition int_of_digits :: "string \<Rightarrow> py_error + int" where
  "int_of_digits s =
     (if length s > 4300 then Inl ValueError
      else Inr (foldl (\<lambda>a c. 10 * a + digit_val c) 0 s))"

text \<open>\<^verbatim>\<open>tuple(int(n) for n in nums)\<close>: the first conversion that raises ends the whole.\<close>

fun int_all :: "string list \<Rightarrow> py_error + int list" where
  "int_all [] = Inr []"
| "int_all (n # ns) =
     (case int_of_digits n of
        Inl e \<Rightarrow> Inl e
      | Inr v \<Rightarrow> (case int_all ns of Inl e \<Rightarrow> Inl e | Inr vs \<Rightarrow> Inr (v # vs)))"

definition extract_int_candidates :: "string \<Rightarrow> py_error + int list" where
  "extract_int_candidates text = int_all (findall_ints False (sub_hms text))"

text \<open>The filter of \<^verbatim>\<open>_pick_patient_count\<close>.\<close>

definition plausible :: "int \<Rightarrow> bool" where
  "plausible n = (0 \<le> n \<and> n \<le> 9999 \<and> n \<notin> set [2020, 2021, 2022, 2023, 2024, 2025, 2026])"

text \<open>The loop of \<^verbatim>\<open>_pick_patient_count\<close> over its arguments, in their order.\<close>

fun all_candidates :: "string list \<Rightarrow> py_error + int list" where
  "all_candidates [] = Inr []"
| "all_candidates (t # ts) =
     (if t \<noteq> [] then
        (case extract_int_candidates t of
           Inl e \<Rightarrow> Inl e
         | Inr cs \<Rightarrow> (case all_candidates ts of Inl e \<Rightarrow> Inl e | Inr ds \<Rightarrow> Inr (cs @ ds)))
      else all_candidates ts)"

definition pick_patient_count :: "string list \<Rightarrow> py_error + int option" where
  "pick_patient_count texts =
     (case all_candidates texts of
        Inl e \<Rightarrow> Inl e
      | Inr cands \<Rightarrow>
          Inr (case filter plausible cands of [] \<Rightarrow> None | n # _ \<Rightarrow> Some n))"

text \<open>
  \<^verbatim>\<open>re.search(r"\b(\d{2}:\d{2}:\d{2})\b", text)\<close>: the leftmost place where the
  pattern stands between two word boundaries. The flag is as in \<open>findall_ints\<close>.
\<close>

fun search_time :: "bool \<Rightarrow> string \<Rightarrow> string option" where
  "search_time prev [] = None"
| "search_time prev (c # cs) =
     (if \<not> prev \<and> hms_prefix (c # cs)
         \<and> (case drop 7 cs of [] \<Rightarrow> True | d # _ \<Rightarrow> \<not> is_word d)
      then Some (take 8 (c # cs))
      else search_time (is_word c) cs)"

definition extract_time :: "string \<Rightarrow> string option" where
  "extract_time text =
     (case search_time False text of
        Some m \<Rightarrow> Some m
      | None \<Rightarrow> if str_in ''IMEDIATO'' (norm text) then Some ''IMEDIATO'' else None)"

text \<open>
  \<^verbatim>\<open>ATUALIZADO EM\s+(\d{2}/\d{2}/\d{4}\s+\d{2}:\d{2}:\d{2})\<close> matched at the head of a
  text; the result is group 1. White space and digits are disjoint, so the greedy
  \<^verbatim>\<open>\s+\<close> takes the whole run of white space.
\<close>

fun date_prefix :: "string \<Rightarrow> bool" where
  "date_prefix (a # b # c # d # e # f # g # h # i # j # _) =
     (is_digit a \<and> is_digit b \<and> c = CHR ''/'' \<and> is_digit d \<and> is_digit e \<and> f = CHR ''/''
      \<and> is_digit g \<and> is_digit h \<and> is_digit i \<and> is_digit j)"
| "date_prefix _ = False"

definition updated_at_prefix :: "string \<Rightarrow> string option" where
  "updated_at_prefix s =
     (if take 13 s = ''ATUALIZADO EM'' then
        (let r1 = drop 13 s; ws1 = takeWhile is_space r1; r2 = dropWhile is_space r1 in
         if ws1 \<noteq> [] \<and> date_prefix r2 then
           (let r3 = drop 10 r2; ws2 = takeWhile is_space r3; r4 = dropWhile is_space r3 in
            if ws2 \<noteq> [] \<and> hms_prefix r4 then Some (take 10 r2 @ ws2 @ take 8 r4) else None)
         else None)
      else None)"

fun search_updated_at :: "string \<Rightarrow> string option" where
  "search_updated_at [] = None"
| "search_updated_at (c # cs) =
     (case updated_at_prefix (c # cs) of
        Some m \<Rightarrow> Some m
      | None \<Rightarrow> search_updated_at cs)"

section \<open>The dashboard parser\<close>

text \<open>
  \<^verbatim>\<open>BeautifulSoup(html, "lxml")\<close> is a library: the model takes what the parser reads
  from the tree it returns, namely \<^verbatim>\<open>soup.get_text(" ", strip=True)\<close> and, for every
  element selected by \<^verbatim>\<open>[aria-label]\<close> in document order, the value of its
  \<^verbatim>\<open>aria-label\<close> attribute and its own \<^verbatim>\<open>get_text(" ", strip=True)\<close>.
\<close>

record soup =
  doc_text :: string
  label_nodes :: "(string \<times> string) list"

datatype val = VNone | VInt int | VStr string

type_synonym slot = "string \<rightharpoonup> val"

record parsed =
  updated_at :: "string option"
  pacientes_unidade :: "int option"
  pacientes_regulacao :: "int option"
  pacientes_at_medico :: "int option"
  classificacoes :: "string \<rightharpoonup> slot"

definition COLORS :: "string list" where
  "COLORS = [''AZUL'', ''VERDE'', ''AMARELO'', ''LARANJA'', ''VERMELHO'']"

definition int_val :: "int option \<Rightarrow> val" where
  "int_val x = (case x of None \<Rightarrow> VNone | Some n \<Rightarrow> VInt n)"

definition str_val :: "string option \<Rightarrow> val" where
  "str_val x = (case x of None \<Rightarrow> VNone | Some t \<Rightarrow> VStr t)"

text \<open>Python truthiness of a value, for \<^verbatim>\<open>x or y\<close>.\<close>

fun truthy :: "val \<Rightarrow> bool" where
  "truthy VNone = False"
| "truthy (VInt n) = (n \<noteq> 0)"
| "truthy (VStr t) = (t \<noteq> [])"

text \<open>\<^verbatim>\<open>d.get(k) is None\<close> on a slot: the key is absent or holds \<^verbatim>\<open>None\<close>.\<close>

definition get_is_none :: "slot \<Rightarrow> string \<Rightarrow> bool" where
  "get_is_none d k = (case d k of None \<Rightarrow> True | Some v \<Rightarrow> v = VNone)"

definition extract_updated_at :: "soup \<Rightarrow> string option" where
  "extract_updated_at sp = search_updated_at (norm (doc_text sp))"

text \<open>\<^verbatim>\<open>_iter_aria_nodes\<close>: the stripped label of every selected element, empty ones dropped.\<close>

definition iter_aria_nodes :: "soup \<Rightarrow> (string \<times> string) list" where
  "iter_aria_nodes sp =
     map (\<lambda>(a, t). (strip a, t)) (filter (\<lambda>(a, t). strip a \<noteq> []) (label_nodes sp))"

definition initial_out :: "soup \<Rightarrow> parsed" where
  "initial_out sp =
     \<lparr> updated_at = extract_updated_at sp,
       pacientes_unidade = None,
       pacientes_regulacao = None,
       pacientes_at_medico = None,
       classificacoes =
         map_of (map (\<lambda>c. (c, [''pacientes'' \<mapsto> VNone, ''tempo_medio'' \<mapsto> VNone])) COLORS) \<rparr>"

text \<open>The four alternatives of \<^verbatim>\<open>_extract_time(..) or _extract_time(..) or ..\<close>.\<close>

definition first_time :: "string list \<Rightarrow> string option" where
  "first_time ts = (case List.map_filter extract_time ts of [] \<Rightarrow> None | m # _ \<Rightarrow> Some m)"

text \<open>The classification branch of the loop body, behind the three scalar cards.\<close>

definition classify_node ::
  "parsed \<Rightarrow> string \<Rightarrow> string \<Rightarrow> string \<Rightarrow> string \<Rightarrow> py_error + parsed" where
  "classify_node out aria_raw el_text aria el_text_norm =
     (case find (\<lambda>c. str_in c aria \<or> str_in c el_text_norm) COLORS of
        None \<Rightarrow> Inr out
      | Some color \<Rightarrow>
          if \<not> list_ex (\<lambda>k. str_in k aria \<or> str_in k el_text_norm)
                 [''CLASSIF'', ''RISCO'', ''TEMPO'', ''PACIENT'']
          then Inr out
          else
            (let tempo = first_time [aria_raw, el_text, aria, el_text_norm] in
             case pick_patient_count [aria_raw, el_text] of
               Inl e \<Rightarrow> Inl e
             | Inr pacientes \<Rightarrow>
                 (let prev0 = (case classificacoes out color of None \<Rightarrow> Map.empty | Some d \<Rightarrow> d);
                      prev1 = (if get_is_none prev0 ''pacientes'' \<and> pacientes \<noteq> None
                               then prev0(''pacientes'' \<mapsto> int_val pacientes) else prev0);
                      prev2 = (if get_is_none prev1 ''tempo_medio'' \<and> tempo \<noteq> None
                               then prev1(''tempo_medio'' \<mapsto> str_val tempo) else prev1)
                  in Inr (out\<lparr>classificacoes := (classificacoes out)(color \<mapsto> prev2)\<rparr>))))"

text \<open>
  One turn of the loop over the labelled nodes (source lines 91 to 135). An exception of
  \<^verbatim>\<open>_pick_patient_count\<close> is not caught.
\<close>

definition node_step :: "parsed \<Rightarrow> string \<times> string \<Rightarrow> py_error + parsed" where
  "node_step out nd =
     (let aria_raw = fst nd; el_text = snd nd;
          aria = norm aria_raw; el_text_norm = norm el_text;
          has = (\<lambda>k. str_in k aria \<or> str_in k el_text_norm)
      in if has ''PACIENTES NA UNIDADE''
         then (case pick_patient_count [aria_raw, el_text] of
                 Inl e \<Rightarrow> Inl e
               | Inr n \<Rightarrow> Inr (out\<lparr>pacientes_unidade := n\<rparr>))
         else if has ''AGUARDANDO REGULACAO''
         then (case pick_patient_count [aria_raw, el_text] of
                 Inl e \<Rightarrow> Inl e
               | Inr n \<Rightarrow> Inr (out\<lparr>pacientes_regulacao := n\<rparr>))
         else if (has ''ATENDIMENTO'' \<and> has ''MEDICO'') \<and> (has ''PACIENT'' \<or> has ''AGUARD'')
         then (case pick_patient_count [aria_raw, el_text] of
                 Inl e \<Rightarrow> Inl e
               | Inr n \<Rightarrow> Inr (out\<lparr>pacientes_at_medico := n\<rparr>))
         else classify_node out aria_raw el_text aria el_text_norm)"

fun nodes_loop :: "parsed \<Rightarrow> (string \<times> string) list \<Rightarrow> py_error + parsed" where
  "nodes_loop out [] = Inr out"
| "nodes_loop out (nd # nds) =
     (case node_step out nd of
        Inl e \<Rightarrow> Inl e
      | Inr out' \<Rightarrow> nodes_loop out' nds)"

text \<open>
  One turn of the fallback loop (source lines 142 to 151). Subscripting a dictionary
  with an absent key raises \<^verbatim>\<open>KeyError\<close>.
\<close>

definition fallback_step :: "string \<Rightarrow> string \<Rightarrow> parsed \<Rightarrow> string \<Rightarrow> py_error + parsed" where
  "fallback_step big_text big_norm out c =
     (case classificacoes out c of
        None \<Rightarrow> Inl KeyError
      | Some d \<Rightarrow>
          (case d ''pacientes'' of
             None \<Rightarrow> Inl KeyError
           | Some p \<Rightarrow>
               if p \<noteq> VNone then Inr out
               else
                 (case str_find c big_norm of
                    None \<Rightarrow> Inr out
                  | Some idx \<Rightarrow>
                      (let window = drop (idx - 120) (take (idx + 220) big_text);
                           window_norm = norm window
                       in if str_in ''CLASSIF'' window_norm \<or> str_in ''RISCO'' window_norm
                             \<or> str_in ''TEMPO'' window_norm
                          then
                            (case pick_patient_count [window] of
                               Inl e \<Rightarrow> Inl e
                             | Inr n \<Rightarrow>
                                 (let d1 = d(''pacientes'' \<mapsto> int_val n)
                                  in case d1 ''tempo_medio'' of
                                       None \<Rightarrow> Inl KeyError
                                     | Some t \<Rightarrow>
                                         Inr (out\<lparr>classificacoes := (classificacoes out)
                                                (c \<mapsto> d1(''tempo_medio'' \<mapsto>
                                                      (if truthy t then t
                                                       else str_val (extract_time window))))\<rparr>)))
                          else Inr out))))"

fun fallback_loop :: "string \<Rightarrow> string \<Rightarrow> parsed \<Rightarrow> string list \<Rightarrow> py_error + parsed" where
  "fallback_loop big_text big_norm out [] = Inr out"
| "fallback_loop big_text big_norm out (c # cs) =
     (case fallback_step big_text big_norm out c of
        Inl e \<Rightarrow> Inl e
      | Inr out' \<Rightarrow> fallback_loop big_text big_norm out' cs)"

definition parse_soup :: "soup \<Rightarrow> py_error + parsed" where
  "parse_soup sp =
     (case nodes_loop (initial_out sp) (iter_aria_nodes sp) of
        Inl e \<Rightarrow> Inl e
      | Inr out \<Rightarrow> fallback_loop (doc_text sp) (norm (doc_text sp)) out COLORS)"

text \<open>\<^verbatim>\<open>parse_upa_dashboard\<close>, with the markup library as a parameter.\<close>

definition parse_upa_dashboard :: "(string \<Rightarrow> soup) \<Rightarrow> string \<Rightarrow> py_error + parsed" where
  "parse_upa_dashboard bs html = parse_soup (bs html)"

text \<open>
  The shape of a result: every colour has an entry, and the entry has both fields.
\<close>

definition shaped :: "parsed \<Rightarrow> bool" where
  "shaped out =
     (\<forall>c\<in>set COLORS. \<exists>d p t. classificacoes out c = Some d \<and> d ''pacientes'' = Some p
                               \<and> d ''tempo_medio'' = Some t)"

section \<open>The cache store\<close>

text \<open>
  What \<^verbatim>\<open>json.load\<close> returns and \<^verbatim>\<open>json.dump\<close> accepts. A Python \<^verbatim>\<open>dict\<close> is an
  association list with distinct keys, in insertion order; \<^verbatim>\<open>None\<close> is \<open>JNull\<close>. A
  \<^verbatim>\<open>float\<close> is a double: \<open>JFloat r\<close> is the finite double of value \<open>r\<close>, and
  \<open>JNonFinite\<close> holds \<^verbatim>\<open>inf\<close>, \<^verbatim>\<open>-inf\<close> and \<^verbatim>\<open>nan\<close>, which \<^verbatim>\<open>json.load\<close> reads from
  \<^verbatim>\<open>Infinity\<close>, \<^verbatim>\<open>-Infinity\<close> and \<^verbatim>\<open>NaN\<close>.
\<close>

datatype nonfinite = PosInf | NegInf | NaN

datatype json =
    JNull
  | JBool bool
  | JInt int
  | JFloat real
  | JNonFinite nonfinite
  | JStr string
  | JArr "json list"
  | JObj "(string \<times> json) list"

text \<open>
  The result of an operation on doubles. The rounding of the machine is a parameter of
  the model: \<open>rnd x\<close> is the double nearest to the real \<open>x\<close> (ties to even), or an
  infinity when \<open>x\<close> is beyond the range of the doubles.
\<close>

datatype fval = Finite real | NonFinite nonfinite

text \<open>
  The rounding of IEEE 754 binary64 arithmetic, to the nearest double with ties to even.
  A double has a significand of 53 bits: around \<open>x\<close> the doubles are spaced \<open>u\<close>, a
  power of two that depends on the exponent \<open>e\<close> of \<open>x\<close> (not below the exponent of
  the smallest normal double, so that the subnormal doubles are spaced \<open>2 powr - 1074\<close>),
  and a result of magnitude \<open>2 powr 1024\<close> or more is an infinity.
\<close>

definition round_half_even :: "real \<Rightarrow> int" where
  "round_half_even x =
     (let f = \<lfloor>x\<rfloor>; d = x - of_int f
      in if d < 1 / 2 then f else if 1 / 2 < d then f + 1 else if even f then f else f + 1)"

definition round_double :: "real \<Rightarrow> fval" where
  "round_double x =
     (if x = 0 then Finite 0
      else
        (let e = max \<lfloor>log 2 \<bar>x\<bar>\<rfloor> (- 1022);
             u = 2 powr (of_int e - 52);
             y = of_int (round_half_even (x / u)) * u
         in if 2 powr 1024 \<le> \<bar>y\<bar> then NonFinite (if 0 < x then PosInf else NegInf)
            else Finite y))"

text \<open>Python truthiness, for \<^verbatim>\<open>if not item\<close> and \<^verbatim>\<open>x or {}\<close>.\<close>

fun json_truthy :: "json \<Rightarrow> bool" where
  "json_truthy JNull = False"
| "json_truthy (JBool b) = b"
| "json_truthy (JInt n) = (n \<noteq> 0)"
| "json_truthy (JFloat r) = (r \<noteq> 0)"
| "json_truthy (JNonFinite x) = True"
| "json_truthy (JStr t) = (t \<noteq> [])"
| "json_truthy (JArr xs) = (xs \<noteq> [])"
| "json_truthy (JObj kvs) = (kvs \<noteq> [])"

text \<open>
  The cache file \<^verbatim>\<open>.cache_upas/upas_cache.json\<close>: absent, present with content that
  cannot be read or deserialized, or present with a JSON document. Writing is taken to
  succeed.
\<close>

datatype cache_file = Missing | Unreadable | Stored json

definition load_cache :: "cache_file \<Rightarrow> json" where
  "load_cache f = (case f of Missing \<Rightarrow> JObj [] | Unreadable \<Rightarrow> JObj [] | Stored j \<Rightarrow> j)"

definition save_cache :: "json \<Rightarrow> cache_file" where
  "save_cache cache = Stored cache"

text \<open>\<^verbatim>\<open>d.get(k, default)\<close>: only a \<^verbatim>\<open>dict\<close> has the method.\<close>

definition json_get :: "json \<Rightarrow> string \<Rightarrow> json \<Rightarrow> py_error + json" where
  "json_get d k dflt =
     (case d of
        JObj kvs \<Rightarrow> Inr (case map_of kvs k of None \<Rightarrow> dflt | Some v \<Rightarrow> v)
      | _ \<Rightarrow> Inl AttributeError)"

text \<open>
  The conversion of an \<^verbatim>\<open>int\<close> operand to a double: exact up to \<open>2 ^ 53\<close>, rounded
  beyond, and \<^verbatim>\<open>OverflowError\<close> when the integer is too large for a double.
\<close>

definition int_to_float :: "(real \<Rightarrow> fval) \<Rightarrow> int \<Rightarrow> py_error + real" where
  "int_to_float rnd n =
     (if \<bar>n\<bar> \<le> 2 ^ 53 then Inr (of_int n)
      else (case rnd (of_int n) of Finite r \<Rightarrow> Inr r | NonFinite x \<Rightarrow> Inl OverflowError))"

text \<open>
  \<^verbatim>\<open>_now() - ts\<close>, with \<open>now\<close> the finite double read from the clock: defined on
  numbers (\<^verbatim>\<open>bool\<close> is a subclass of \<^verbatim>\<open>int\<close>), rounded as every operation on doubles.
\<close>

definition elapsed :: "(real \<Rightarrow> fval) \<Rightarrow> real \<Rightarrow> json \<Rightarrow> py_error + fval" where
  "elapsed rnd now ts =
     (case ts of
        JInt n \<Rightarrow>
          (case int_to_float rnd n of Inl e \<Rightarrow> Inl e | Inr r \<Rightarrow> Inr (rnd (now - r)))
      | JFloat r \<Rightarrow> Inr (rnd (now - r))
      | JBool b \<Rightarrow> Inr (rnd (now - (if b then 1 else 0)))
      | JNonFinite x \<Rightarrow>
          Inr (NonFinite (case x of PosInf \<Rightarrow> NegInf | NegInf \<Rightarrow> PosInf | NaN \<Rightarrow> NaN))
      | _ \<Rightarrow> Inl TypeError)"

text \<open>\<^verbatim>\<open>age > ttl_seconds\<close>: a double compared with an \<^verbatim>\<open>int\<close>, exactly.\<close>

definition exceeds :: "fval \<Rightarrow> int \<Rightarrow> bool" where
  "exceeds age ttl_seconds =
     (case age of
        Finite r \<Rightarrow> r > of_int ttl_seconds
      | NonFinite x \<Rightarrow> x = PosInf)"

text \<open>\<^verbatim>\<open>get_cached(url, ttl_seconds)\<close> on the file \<open>f\<close> at clock reading \<open>now\<close>.\<close>

definition get_cached ::
  "(real \<Rightarrow> fval) \<Rightarrow> cache_file \<Rightarrow> string \<Rightarrow> int \<Rightarrow> real \<Rightarrow> py_error + json" where
  "get_cached rnd f url ttl_seconds now =
     (case json_get (load_cache f) url JNull of
        Inl e \<Rightarrow> Inl e
      | Inr item \<Rightarrow>
          if \<not> json_truthy item then Inr JNull
          else
            (case json_get item ''_ts'' (JInt 0) of
               Inl e \<Rightarrow> Inl e
             | Inr ts \<Rightarrow>
                 (case elapsed rnd now ts of
                    Inl e \<Rightarrow> Inl e
                  | Inr age \<Rightarrow>
                      if exceeds age ttl_seconds then Inr JNull
                      else json_get item ''data'' JNull)))"

text \<open>\<^verbatim>\<open>cache[url] = entry\<close>: item assignment with a string key needs a \<^verbatim>\<open>dict\<close>.\<close>

definition json_set :: "json \<Rightarrow> string \<Rightarrow> json \<Rightarrow> py_error + json" where
  "json_set d k v =
     (case d of
        JObj kvs \<Rightarrow> Inr (JObj (AList.update k v kvs))
      | _ \<Rightarrow> Inl TypeError)"

definition cache_entry :: "real \<Rightarrow> json \<Rightarrow> json" where
  "cache_entry now data = JObj [(''_ts'', JFloat now), (''data'', data)]"

text \<open>\<^verbatim>\<open>set_cached(url, data)\<close> on the file \<open>f\<close> at clock reading \<open>now\<close>: the new file.\<close>

definition set_cached :: "cache_file \<Rightarrow> string \<Rightarrow> json \<Rightarrow> real \<Rightarrow> py_error + cache_file" where
  "set_cached f url data now =
     (case json_set (load_cache f) url (cache_entry now data) of
        Inl e \<Rightarrow> Inl e
      | Inr cache \<Rightarrow> Inr (save_cache cache))"

subsection \<open>Concurrent callers of \<^verbatim>\<open>set_cached\<close>\<close>

text \<open>
  \<^verbatim>\<open>set_cached\<close> takes no lock. A caller first loads the file into a dictionary of its
  own and later saves that dictionary; between the two, other callers may run. The model
  interleaves these two steps of every caller (each step taken as atomic).
\<close>

record writer =
  w_url :: string
  w_data :: json
  w_now :: real

datatype event = Load nat | Save nat

type_synonym store_state = "cache_file \<times> (nat \<rightharpoonup> json)"

definition store_step :: "(nat \<Rightarrow> writer) \<Rightarrow> store_state \<Rightarrow> event \<Rightarrow> store_state" where
  "store_step ws st ev =
     (case ev of
        Load i \<Rightarrow> (fst st, (snd st)(i \<mapsto> load_cache (fst st)))
      | Save i \<Rightarrow>
          (case snd st i of
             None \<Rightarrow> st
           | Some cache \<Rightarrow>
               (case json_set cache (w_url (ws i)) (cache_entry (w_now (ws i)) (w_data (ws i))) of
                  Inl e \<Rightarrow> st
                | Inr cache' \<Rightarrow> (save_cache cache', snd st))))"

definition run_events :: "(nat \<Rightarrow> writer) \<Rightarrow> store_state \<Rightarrow> event list \<Rightarrow> store_state" where
  "run_events ws st evs = foldl (store_step ws) st evs"

text \<open>The schedule in which the callers run one after another.\<close>

definition serial :: "nat list \<Rightarrow> event list" where
  "serial order = concat (map (\<lambda>i. [Load i, Save i]) order)"

text \<open>The same calls made one after another by a single caller.\<close>

definition set_all :: "(nat \<Rightarrow> writer) \<Rightarrow> cache_file \<Rightarrow> nat list \<Rightarrow> cache_file" where
  "set_all ws f order =
     foldl (\<lambda>g i. case set_cached g (w_url (ws i)) (w_data (ws i)) (w_now (ws i)) of
                     Inl e \<Rightarrow> g
                   | Inr g' \<Rightarrow> g') f order"

text \<open>The entries that the calls of \<open>order\<close>, made one after another, put into a dictionary.\<close>

definition entries_after ::
  "(nat \<Rightarrow> writer) \<Rightarrow> (string \<rightharpoonup> json) \<Rightarrow> nat list \<Rightarrow> (string \<rightharpoonup> json)" where
  "entries_after ws m order =
     foldl (\<lambda>m i. m(w_url (ws i) \<mapsto> cache_entry (w_now (ws i)) (w_data (ws i)))) m order"

text \<open>Two workers of the coordinator, each caching the result of its own target.\<close>

definition two_writers :: "nat \<Rightarrow> writer" where
  "two_writers i = (if i = 0 then \<lparr>w_url = ''a'', w_data = JInt 1, w_now = 10\<rparr>
                    else \<lparr>w_url = ''b'', w_data = JInt 2, w_now = 11\<rparr>)"

section \<open>The fetch coordinator\<close>

text \<open>
  A row is the dictionary built by \<^verbatim>\<open>_flatten_row\<close> or by the handler of
  \<^verbatim>\<open>load_all_upas\<close>. The coordinator uses an exception only through \<^verbatim>\<open>str(e)\<close>, so a
  raised exception is represented by that text.
\<close>

type_synonym row = "(string \<times> json) list"

definition lower_char :: "char \<Rightarrow> char" where
  "lower_char c =
     (case map_of (zip ''ABCDEFGHIJKLMNOPQRSTUVWXYZ'' ''abcdefghijklmnopqrstuvwxyz'') c of
        Some l \<Rightarrow> l
      | None \<Rightarrow> c)"

fun type_name :: "json \<Rightarrow> string" where
  "type_name JNull = ''NoneType''"
| "type_name (JBool b) = ''bool''"
| "type_name (JInt n) = ''int''"
| "type_name (JFloat r) = ''float''"
| "type_name (JNonFinite x) = ''float''"
| "type_name (JStr t) = ''str''"
| "type_name (JArr xs) = ''list''"
| "type_name (JObj kvs) = ''dict''"

text \<open>The text of the \<^verbatim>\<open>AttributeError\<close> of \<^verbatim>\<open>d.get\<close> on a value that is no \<^verbatim>\<open>dict\<close>.\<close>

definition no_get :: "json \<Rightarrow> string" where
  "no_get d = [CHR 0x27] @ type_name d @ [CHR 0x27] @ '' object has no attribute ''
              @ [CHR 0x27] @ ''get'' @ [CHR 0x27]"

definition attr_get :: "json \<Rightarrow> string \<Rightarrow> json \<Rightarrow> string + json" where
  "attr_get d k dflt = (case json_get d k dflt of Inl e \<Rightarrow> Inl (no_get d) | Inr v \<Rightarrow> Inr v)"

text \<open>\<^verbatim>\<open>x or {}\<close>.\<close>

definition or_empty :: "json \<Rightarrow> json" where
  "or_empty x = (if json_truthy x then x else JObj [])"

text \<open>One turn of the loop over the colours in \<^verbatim>\<open>_flatten_row\<close>.\<close>

definition color_cells :: "json \<Rightarrow> row \<Rightarrow> string \<Rightarrow> string + row" where
  "color_cells classifs r cor =
     (case attr_get classifs cor (JObj []) of
        Inl m \<Rightarrow> Inl m
      | Inr i0 \<Rightarrow>
          (let info = or_empty i0 in
           case attr_get info ''pacientes'' JNull of
             Inl m \<Rightarrow> Inl m
           | Inr p \<Rightarrow>
               (case attr_get info ''tempo_medio'' JNull of
                  Inl m \<Rightarrow> Inl m
                | Inr t \<Rightarrow>
                    Inr (AList.update (map lower_char cor @ ''_tempo_medio'') t
                          (AList.update (map lower_char cor @ ''_pacientes'') p r)))))"

fun colors_loop :: "json \<Rightarrow> row \<Rightarrow> string list \<Rightarrow> string + row" where
  "colors_loop classifs r [] = Inr r"
| "colors_loop classifs r (cor # cs) =
     (case color_cells classifs r cor of
        Inl m \<Rightarrow> Inl m
      | Inr r' \<Rightarrow> colors_loop classifs r' cs)"

definition flatten_row :: "string \<Rightarrow> string \<Rightarrow> json \<Rightarrow> string + row" where
  "flatten_row upa_nome url data =
     (case attr_get data ''updated_at'' JNull of
        Inl m \<Rightarrow> Inl m
      | Inr u \<Rightarrow>
     (case attr_get data ''pacientes_unidade'' JNull of
        Inl m \<Rightarrow> Inl m
      | Inr pu \<Rightarrow>
     (case attr_get data ''pacientes_regulacao'' JNull of
        Inl m \<Rightarrow> Inl m
      | Inr pr \<Rightarrow>
     (case attr_get data ''pacientes_at_medico'' JNull of
        Inl m \<Rightarrow> Inl m
      | Inr pm \<Rightarrow>
     (case attr_get data ''classificacoes'' (JObj []) of
        Inl m \<Rightarrow> Inl m
      | Inr c0 \<Rightarrow>
          colors_loop (or_empty c0)
            [(''upa'', JStr upa_nome), (''url'', JStr url), (''updated_at'', u),
             (''pacientes_unidade'', pu), (''pacientes_regulacao'', pr),
             (''pacientes_at_medico'', pm)]
            [''AZUL'', ''VERDE'', ''AMARELO'', ''LARANJA'', ''VERMELHO''])))))"

text \<open>
  \<^verbatim>\<open>_fetch_one\<close>. Its cache look-up, fetch, parse and cache write act on the network
  and on a disk shared with the other workers; \<open>pipeline\<close> stands for them: for a
  target it gives the text of the exception one of them raised, or the dictionary that
  \<^verbatim>\<open>_fetch_one\<close> passes to \<^verbatim>\<open>_flatten_row\<close>.
\<close>

definition fetch_one :: "(string \<Rightarrow> string \<Rightarrow> string + json) \<Rightarrow> string \<Rightarrow> string \<Rightarrow> string + row" where
  "fetch_one pipeline upa_nome url =
     (case pipeline upa_nome url of
        Inl m \<Rightarrow> Inl m
      | Inr data \<Rightarrow> flatten_row upa_nome url data)"

text \<open>The fourteen metric columns, and the row written by the exception handler.\<close>

definition metric_keys :: "string list" where
  "metric_keys =
     [''updated_at'', ''pacientes_unidade'', ''pacientes_regulacao'', ''pacientes_at_medico'',
      ''azul_pacientes'', ''azul_tempo_medio'', ''verde_pacientes'', ''verde_tempo_medio'',
      ''amarelo_pacientes'', ''amarelo_tempo_medio'', ''laranja_pacientes'',
      ''laranja_tempo_medio'', ''vermelho_pacientes'', ''vermelho_tempo_medio'']"

definition error_row :: "string \<Rightarrow> string \<Rightarrow> string \<Rightarrow> row" where
  "error_row nome url msg =
     [(''upa'', JStr nome), (''url'', JStr url), (''updated_at'', JNull),
      (''pacientes_unidade'', JNull), (''pacientes_regulacao'', JNull),
      (''pacientes_at_medico'', JNull),
      (''azul_pacientes'', JNull), (''azul_tempo_medio'', JNull),
      (''verde_pacientes'', JNull), (''verde_tempo_medio'', JNull),
      (''amarelo_pacientes'', JNull), (''amarelo_tempo_medio'', JNull),
      (''laranja_pacientes'', JNull), (''laranja_tempo_medio'', JNull),
      (''vermelho_pacientes'', JNull), (''vermelho_tempo_medio'', JNull),
      (''erro'', JStr msg)]"

text \<open>The body of the loop over the completed futures: \<^verbatim>\<open>fut.result()\<close> or the handler.\<close>

definition collect_row :: "(string \<Rightarrow> string \<Rightarrow> string + json) \<Rightarrow> string \<times> string \<Rightarrow> row" where
  "collect_row pipeline target =
     (case fetch_one pipeline (fst target) (snd target) of
        Inr r \<Rightarrow> r
      | Inl msg \<Rightarrow> error_row (fst target) (snd target) msg)"

subsection \<open>The frame\<close>

text \<open>
  \<^verbatim>\<open>pd.DataFrame(rows)\<close> on a list of dictionaries, as pandas 2 builds it: a frame is
  its columns in order, each with the array of its cells. A cell is a Python object; the
  missing value \<^verbatim>\<open>NaN\<close> is \<open>JNonFinite NaN\<close>, and a cell of a floating-point column is a
  \<open>JFloat\<close>. The index of the frame is not represented.
\<close>

type_synonym frame = "(string \<times> json list) list"

text \<open>The columns are the keys of the dictionaries in the order of their first appearance.\<close>

definition fast_unique :: "string list \<Rightarrow> string list" where
  "fast_unique ks = foldl (\<lambda>acc k. if k \<in> set acc then acc else acc @ [k]) [] ks"

text \<open>The cells of a column; a dictionary without the key gives \<^verbatim>\<open>NaN\<close>.\<close>

definition dicts_to_array :: "row list \<Rightarrow> string \<Rightarrow> json list" where
  "dicts_to_array rows c =
     map (\<lambda>r. case map_of r c of Some v \<Rightarrow> v | None \<Rightarrow> JNonFinite NaN) rows"

text \<open>
  The inference of the type of a column, \<^verbatim>\<open>lib.maybe_convert_objects\<close>. Its loop notes
  the kinds of value seen and stops at the first value that is no \<^verbatim>\<open>None\<close>, boolean or
  number. It casts every integer it meets to a float, which raises \<^verbatim>\<open>OverflowError\<close>
  beyond the float range, and checks the 64-bit range of an integer only as long as no
  \<^verbatim>\<open>None\<close> has been seen.
\<close>

record seen =
  seen_null :: bool
  seen_nan :: bool
  seen_bool :: bool
  seen_float :: bool
  seen_int :: bool
  seen_uint :: bool
  seen_sint :: bool
  seen_object :: bool

definition seen_nothing :: seen where
  "seen_nothing = \<lparr>seen_null = False, seen_nan = False, seen_bool = False, seen_float = False,
                    seen_int = False, seen_uint = False, seen_sint = False, seen_object = False\<rparr>"

definition INT64_MIN :: int where "INT64_MIN = - (2 ^ 63)"

definition INT64_MAX :: int where "INT64_MAX = 2 ^ 63 - 1"

definition UINT64_MAX :: int where "UINT64_MAX = 2 ^ 64 - 1"

definition saw_int :: "seen \<Rightarrow> int \<Rightarrow> seen" where
  "saw_int s n = s\<lparr>seen_int := True,
                   seen_sint := seen_sint s \<or> (INT64_MIN \<le> n \<and> n < 0),
                   seen_uint := seen_uint s \<or> (INT64_MAX < n \<and> n \<le> UINT64_MAX)\<rparr>"

fun scan_objects :: "(real \<Rightarrow> fval) \<Rightarrow> seen \<Rightarrow> json list \<Rightarrow> py_error + seen" where
  "scan_objects rnd s [] = Inr s"
| "scan_objects rnd s (JNull # vs) = scan_objects rnd (s\<lparr>seen_null := True\<rparr>) vs"
| "scan_objects rnd s (JBool b # vs) = scan_objects rnd (s\<lparr>seen_bool := True\<rparr>) vs"
| "scan_objects rnd s (JFloat r # vs) = scan_objects rnd (s\<lparr>seen_float := True\<rparr>) vs"
| "scan_objects rnd s (JNonFinite x # vs) =
     scan_objects rnd (s\<lparr>seen_float := True, seen_nan := seen_nan s \<or> x = NaN\<rparr>) vs"
| "scan_objects rnd s (JInt n # vs) =
     (case int_to_float rnd n of
        Inl e \<Rightarrow> Inl e
      | Inr r \<Rightarrow>
          if seen_null s then scan_objects rnd (s\<lparr>seen_int := True\<rparr>) vs
          else
            (let s' = saw_int s n
             in if (seen_uint s' \<and> seen_sint s') \<or> UINT64_MAX < n \<or> n < INT64_MIN
                then Inr (s'\<lparr>seen_object := True\<rparr>)
                else scan_objects rnd s' vs))"
| "scan_objects rnd s (v # vs) = Inr (s\<lparr>seen_object := True\<rparr>)"

text \<open>The cell of the array of floats that the loop fills for a value.\<close>

definition to_float :: "(real \<Rightarrow> fval) \<Rightarrow> json \<Rightarrow> json" where
  "to_float rnd v =
     (case v of
        JNull \<Rightarrow> JNonFinite NaN
      | JInt n \<Rightarrow> (case int_to_float rnd n of Inr r \<Rightarrow> JFloat r | Inl e \<Rightarrow> JNonFinite NaN)
      | _ \<Rightarrow> v)"

text \<open>
  The array chosen after the loop. A column with a boolean is an array of booleans when
  it holds nothing else and an array of objects otherwise, with the same cells either
  way; a column of numbers with a \<^verbatim>\<open>None\<close> or a \<^verbatim>\<open>NaN\<close>, or with a float, is the array of
  floats; a column of integers keeps them; every other column is left as it is.
\<close>

definition maybe_convert_objects :: "(real \<Rightarrow> fval) \<Rightarrow> json list \<Rightarrow> py_error + json list" where
  "maybe_convert_objects rnd objects =
     (case scan_objects rnd seen_nothing objects of
        Inl e \<Rightarrow> Inl e
      | Inr s \<Rightarrow>
          Inr (if seen_bool s \<or> seen_object s then objects
               else if seen_null s \<or> seen_nan s then
                 (if seen_float s \<or> seen_int s then map (to_float rnd) objects else objects)
               else if seen_float s then map (to_float rnd) objects
               else objects))"

fun convert_object_array :: "(real \<Rightarrow> fval) \<Rightarrow> frame \<Rightarrow> py_error + frame" where
  "convert_object_array rnd [] = Inr []"
| "convert_object_array rnd ((c, arr) # content) =
     (case maybe_convert_objects rnd arr of
        Inl e \<Rightarrow> Inl e
      | Inr a \<Rightarrow>
          (case convert_object_array rnd content of
             Inl e \<Rightarrow> Inl e
           | Inr arrays \<Rightarrow> Inr ((c, a) # arrays)))"

definition DataFrame :: "(real \<Rightarrow> fval) \<Rightarrow> row list \<Rightarrow> py_error + frame" where
  "DataFrame rnd rows =
     convert_object_array rnd
       (map (\<lambda>c. (c, dicts_to_array rows c)) (fast_unique (concat (map (map fst) rows))))"

text \<open>\<^verbatim>\<open>df[names]\<close>: the named columns, \<^verbatim>\<open>KeyError\<close> when the frame lacks one.\<close>

fun select_columns :: "frame \<Rightarrow> string list \<Rightarrow> py_error + frame" where
  "select_columns df [] = Inr []"
| "select_columns df (c # cs) =
     (case map_of df c of
        None \<Rightarrow> Inl KeyError
      | Some a \<Rightarrow>
          (case select_columns df cs of
             Inl e \<Rightarrow> Inl e
           | Inr fr \<Rightarrow> Inr ((c, a) # fr)))"

text \<open>
  \<^verbatim>\<open>df.sort_values(key, kind="stable")\<close>: the stable sort of the positions by the cell of
  the column \<open>key\<close>, applied to every column. The cells of the column sorted here are
  strings, compared as Python compares them.
\<close>

definition str_of :: "json \<Rightarrow> string" where
  "str_of v = (case v of JStr s \<Rightarrow> s | _ \<Rightarrow> [])"

definition argsort :: "json list \<Rightarrow> nat list" where
  "argsort keys = sort_key (\<lambda>i. str_of (keys ! i)) [0..<length keys]"

definition sort_values :: "frame \<Rightarrow> string \<Rightarrow> py_error + frame" where
  "sort_values df key =
     (case map_of df key of
        None \<Rightarrow> Inl KeyError
      | Some keys \<Rightarrow> Inr (map (\<lambda>(c, a). (c, map (nth a) (argsort keys))) df))"

definition frame_cell :: "frame \<Rightarrow> nat \<Rightarrow> string \<Rightarrow> json option" where
  "frame_cell df i c =
     (case map_of df c of
        None \<Rightarrow> None
      | Some a \<Rightarrow> if i < length a then Some (a ! i) else None)"

text \<open>The cell of a run that returned a frame.\<close>

definition run_cell :: "py_error + frame \<Rightarrow> nat \<Rightarrow> string \<Rightarrow> py_error + json option" where
  "run_cell res i c = (case res of Inl e \<Rightarrow> Inl e | Inr df \<Rightarrow> Inr (frame_cell df i c))"

text \<open>\<^verbatim>\<open>pd.isna\<close> on a cell.\<close>

definition isna :: "json \<Rightarrow> bool" where
  "isna v = (v = JNull \<or> v = JNonFinite NaN)"

text \<open>A value whose cast to a float, if it is an integer, does not overflow.\<close>

definition fits :: "(real \<Rightarrow> fval) \<Rightarrow> json \<Rightarrow> bool" where
  "fits rnd v =
     (case v of
        JInt n \<Rightarrow> (case int_to_float rnd n of Inr r \<Rightarrow> True | Inl e \<Rightarrow> False)
      | _ \<Rightarrow> True)"

definition frame_len :: "frame \<Rightarrow> nat" where
  "frame_len df = (case df of [] \<Rightarrow> 0 | (c, a) # _ \<Rightarrow> length a)"

text \<open>
  \<^verbatim>\<open>load_all_upas\<close>. \<^verbatim>\<open>ThreadPoolExecutor\<close> raises \<^verbatim>\<open>ValueError\<close> unless
  \<^verbatim>\<open>max_workers\<close> is positive. \<open>completed\<close> is the order in which \<^verbatim>\<open>as_completed\<close>
  yields the futures of the registry.
\<close>

definition main_columns :: "string list" where
  "main_columns = [''upa'', ''updated_at'', ''pacientes_unidade'', ''pacientes_regulacao'',
                   ''pacientes_at_medico'']"

definition load_all_upas ::
  "(real \<Rightarrow> fval) \<Rightarrow> (string \<Rightarrow> string \<Rightarrow> string + json) \<Rightarrow> int \<Rightarrow> (string \<times> string) list
   \<Rightarrow> py_error + frame" where
  "load_all_upas rnd pipeline max_workers completed =
     (if max_workers \<le> 0 then Inl ValueError
      else
        (case DataFrame rnd (map (collect_row pipeline) completed) of
           Inl e \<Rightarrow> Inl e
         | Inr df \<Rightarrow>
             (let rest = filter (\<lambda>c. c \<notin> set main_columns) (map fst df)
              in case select_columns df (main_columns @ rest) of
                   Inl e \<Rightarrow> Inl e
                 | Inr df' \<Rightarrow> sort_values df' ''upa'')))"

text \<open>
  Two targets whose pipeline returns the parser's dictionary, and the same targets when
  the second one raises.
\<close>

definition two_targets :: "(string \<times> string) list" where
  "two_targets = [(''A'', ''u1''), (''B'', ''u2'')]"

definition both_ok :: "string \<Rightarrow> string \<Rightarrow> string + json" where
  "both_ok nome url = Inr (JObj [(''pacientes_unidade'', JInt (if nome = ''A'' then 12 else 7))])"

definition second_fails :: "string \<Rightarrow> string \<Rightarrow> string + json" where
  "second_fails nome url = (if nome = ''B'' then Inl ''timeout'' else both_ok nome url)"

section \<open>The direct HTTP fetch\<close>

text \<open>
  The network is a parameter: \<open>net k\<close> is what the \<^verbatim>\<open>GET\<close> of attempt \<open>k\<close> does, a
  response with its status and text or an exception with its text. \<open>jitter k\<close> is the
  value of \<^verbatim>\<open>random.random()\<close> in attempt \<open>k\<close>.
\<close>

datatype attempt = Response nat string | GetRaised string

datatype exc = SleepError | HTTPError nat | RequestError string

record fetch_result =
  fr_url :: string
  status_code :: nat
  html :: string
  via :: string
  iframe_url :: "string option"

text \<open>
  The \<^verbatim>\<open>RuntimeError\<close> of the last lines: its message is built from the address, the
  last status and, when an exception was caught, that exception.
\<close>

datatype fetch_error = RuntimeError string nat "exc option"

datatype io_event = Slept real | Got nat

definition backoff_delay :: "real \<Rightarrow> (nat \<Rightarrow> real) \<Rightarrow> nat \<Rightarrow> real" where
  "backoff_delay backoff_base jitter attempt =
     backoff_base * 2 ^ (attempt - 1) + jitter attempt * 0.2"

definition attempt_events :: "real \<Rightarrow> (nat \<Rightarrow> real) \<Rightarrow> nat \<Rightarrow> io_event list" where
  "attempt_events backoff_base jitter attempt =
     (if attempt > 1 then [Slept (backoff_delay backoff_base jitter attempt)] else [])
     @ [Got attempt]"

definition and_then :: "io_event list \<Rightarrow> 'a \<times> io_event list \<Rightarrow> 'a \<times> io_event list" where
  "and_then evs res = (fst res, evs @ snd res)"

text \<open>
  The loop \<^verbatim>\<open>for attempt in range(1, retries + 1)\<close> with its \<^verbatim>\<open>try\<close> block.
  \<^verbatim>\<open>time.sleep\<close> raises on a negative length, \<^verbatim>\<open>raise_for_status\<close> raises on a status
  from 400 to 599, and the handler catches every exception and goes on.
\<close>

fun requests_loop ::
  "(nat \<Rightarrow> attempt) \<Rightarrow> (nat \<Rightarrow> real) \<Rightarrow> real \<Rightarrow> string \<Rightarrow> nat list \<Rightarrow> nat \<Rightarrow> exc option
   \<Rightarrow> (fetch_error + fetch_result) \<times> io_event list" where
  "requests_loop net jitter backoff_base url [] last_status last_exc =
     (Inl (RuntimeError url last_status last_exc), [])"
| "requests_loop net jitter backoff_base url (attempt # rest) last_status last_exc =
     (if attempt > 1 \<and> backoff_delay backoff_base jitter attempt < 0
      then requests_loop net jitter backoff_base url rest last_status (Some SleepError)
      else
        (case net attempt of
           GetRaised m \<Rightarrow>
             and_then (attempt_events backoff_base jitter attempt)
               (requests_loop net jitter backoff_base url rest last_status (Some (RequestError m)))
         | Response status body \<Rightarrow>
             if status \<in> set [429, 503, 502, 504]
             then and_then (attempt_events backoff_base jitter attempt)
                    (requests_loop net jitter backoff_base url rest status last_exc)
             else if 400 \<le> status \<and> status < 600
             then and_then (attempt_events backoff_base jitter attempt)
                    (requests_loop net jitter backoff_base url rest status (Some (HTTPError status)))
             else (Inr \<lparr> fr_url = url, status_code = status, html = body,
                         via = ''requests'', iframe_url = None \<rparr>,
                   attempt_events backoff_base jitter attempt)))"

definition fetch_html_requests ::
  "(nat \<Rightarrow> attempt) \<Rightarrow> (nat \<Rightarrow> real) \<Rightarrow> string \<Rightarrow> nat \<Rightarrow> real
   \<Rightarrow> (fetch_error + fetch_result) \<times> io_event list" where
  "fetch_html_requests net jitter url retries backoff_base =
     requests_loop net jitter backoff_base url [1..<Suc retries] 0 None"

text \<open>
  What an attempt leaves behind when it does not return: whether it failed, and the
  values of \<^verbatim>\<open>last_status\<close> and \<^verbatim>\<open>last_exc\<close> after it.
\<close>

fun attempt_failed :: "attempt \<Rightarrow> bool" where
  "attempt_failed (GetRaised m) = True"
| "attempt_failed (Response status body) = (400 \<le> status \<and> status < 600)"

fun status_after :: "nat \<Rightarrow> attempt \<Rightarrow> nat" where
  "status_after last_status (GetRaised m) = last_status"
| "status_after last_status (Response status body) = status"

fun exc_after :: "exc option \<Rightarrow> attempt \<Rightarrow> exc option" where
  "exc_after last_exc (GetRaised m) = Some (RequestError m)"
| "exc_after last_exc (Response status body) =
     (if status \<in> set [429, 503, 502, 504] then last_exc
      else if 400 \<le> status \<and> status < 600 then Some (HTTPError status)
      else last_exc)"

section \<open>Properties of the numeric heuristic\<close>

lemma int_all_error: "int_all ns = Inl e \<Longrightarrow> e = ValueError"
  by (induction ns) (auto simp: int_of_digits_def split: if_splits sum.splits)

lemma int_all_short: "\<forall>n\<in>set ns. length n \<le> 4300 \<Longrightarrow> \<exists>vs. int_all ns = Inr vs"
  by (induction ns) (auto simp: int_of_digits_def)

lemma length_sub_hms: "length (sub_hms s) \<le> length s"
  by (induction s rule: sub_hms.induct) auto

lemma findall_ints_length: "tok \<in> set (findall_ints p s) \<Longrightarrow> length tok \<le> length s"
proof (induction p s rule: findall_ints.induct)
  case (1 prev)
  then show ?case by simp
next
  case (2 prev c cs)
  have tw: "length (takeWhile is_digit cs) \<le> length cs" by (rule length_takeWhile_le)
  show ?case
  proof (cases "\<not> prev \<and> is_digit c")
    case False
    with 2 show ?thesis by (auto split: if_splits)
  next
    case True
    show ?thesis
    proof (cases "dropWhile is_digit cs")
      case Nil
      with True "2.prems" tw show ?thesis by auto
    next
      case (Cons d ds)
      have dl: "length (d # ds) \<le> length cs"
        using Cons by (metis length_dropWhile_le)
      show ?thesis
      proof (cases "is_word d")
        case w: True
        with True Cons "2.prems" have "tok \<in> set (findall_ints True cs)" by simp
        with "2.IH"(1) [OF True Cons w] show ?thesis by simp
      next
        case w: False
        with True Cons "2.prems" have
          "tok = c # takeWhile is_digit cs \<or> tok \<in> set (findall_ints True (d # ds))" by simp
        then show ?thesis
        proof
          assume "tok = c # takeWhile is_digit cs"
          with tw show ?thesis by simp
        next
          assume "tok \<in> set (findall_ints True (d # ds))"
          with "2.IH"(2) [OF True Cons w] dl show ?thesis by simp
        qed
      qed
    qed
  qed
qed

lemma extract_error: "extract_int_candidates t = Inl e \<Longrightarrow> e = ValueError"
  unfolding extract_int_candidates_def by (rule int_all_error)

lemma extract_short:
  assumes "length t \<le> 4300"
  shows "\<exists>cs. extract_int_candidates t = Inr cs"
proof -
  have "\<forall>n\<in>set (findall_ints False (sub_hms t)). length n \<le> 4300"
  proof
    fix n assume "n \<in> set (findall_ints False (sub_hms t))"
    then have "length n \<le> length (sub_hms t)" by (rule findall_ints_length)
    also have "\<dots> \<le> length t" by (rule length_sub_hms)
    finally show "length n \<le> 4300" using assms by simp
  qed
  then show ?thesis unfolding extract_int_candidates_def by (rule int_all_short)
qed

lemma all_candidates_error: "all_candidates ts = Inl e \<Longrightarrow> e = ValueError"
  by (induction ts) (auto dest: extract_error split: if_splits sum.splits)

lemma all_candidates_short:
  "\<forall>t\<in>set ts. length t \<le> 4300 \<Longrightarrow> \<exists>cs. all_candidates ts = Inr cs"
proof (induction ts)
  case Nil
  then show ?case by simp
next
  case (Cons t ts)
  then obtain ds where ds: "all_candidates ts = Inr ds" by auto
  from Cons.prems obtain cs where "extract_int_candidates t = Inr cs"
    using extract_short [of t] by auto
  with ds show ?case by simp
qed

lemma pick_error: "pick_patient_count texts = Inl e \<Longrightarrow> e = ValueError"
  by (auto simp: pick_patient_count_def dest: all_candidates_error split: sum.splits)

lemma pick_short:
  "\<forall>t\<in>set texts. length t \<le> 4300 \<Longrightarrow> \<exists>r. pick_patient_count texts = Inr r"
  using all_candidates_short [of texts] by (auto simp: pick_patient_count_def)

lemma pick_Some_plausible: "pick_patient_count texts = Inr (Some n) \<Longrightarrow> plausible n"
proof -
  assume a: "pick_patient_count texts = Inr (Some n)"
  then obtain cands where "all_candidates texts = Inr cands"
    by (auto simp: pick_patient_count_def split: sum.splits)
  with a have "\<exists>ns. filter plausible cands = n # ns"
    by (simp add: pick_patient_count_def split: list.splits)
  then obtain ns where "filter plausible cands = n # ns" ..
  then have "n \<in> set (filter plausible cands)" by simp
  then show "plausible n" by simp
qed

subsection \<open>Strings of digits\<close>

lemma hms_prefixE:
  assumes "hms_prefix s"
  obtains a b d e g h r where
    "s = a # b # CHR '':'' # d # e # CHR '':'' # g # h # r"
    "is_digit a" "is_digit b" "is_digit d" "is_digit e" "is_digit g" "is_digit h"
  using assms by (cases s rule: hms_prefix.cases) auto

lemma sub_hms_no_colon: "CHR '':'' \<notin> set s \<Longrightarrow> sub_hms s = s"
proof (induction s rule: sub_hms.induct)
  case 1
  show ?case by simp
next
  case (2 c cs)
  have "\<not> hms_prefix (c # cs)"
  proof
    assume "hms_prefix (c # cs)"
    then have "CHR '':'' \<in> set (c # cs)" by (rule hms_prefixE) simp
    with "2.prems" show False by simp
  qed
  with 2 show ?case by simp
qed

lemma findall_ints_digits:
  assumes "s \<noteq> []" "\<forall>c\<in>set s. is_digit c"
  shows "findall_ints False s = [s]"
proof -
  from assms obtain c cs where s: "s = c # cs" by (cases s) auto
  with assms(2) have c: "is_digit c" and cs: "\<forall>x\<in>set cs. is_digit x" by simp_all
  from cs have d: "dropWhile is_digit cs = []" and t: "takeWhile is_digit cs = cs" by simp_all
  from c show ?thesis unfolding s by (simp add: d t)
qed

lemma digit_not_colon: "is_digit c \<Longrightarrow> c \<noteq> CHR '':''"
  by (auto simp: is_digit_def)

lemma extract_digits:
  assumes "s \<noteq> []" "\<forall>c\<in>set s. is_digit c"
  shows "extract_int_candidates s = int_all [s]"
proof -
  from assms(2) have "CHR '':'' \<notin> set s" using digit_not_colon by blast
  then have "sub_hms s = s" by (rule sub_hms_no_colon)
  with assms show ?thesis by (simp add: extract_int_candidates_def findall_ints_digits)
qed

lemma extract_long_digits:
  assumes "4300 < length s" "\<forall>c\<in>set s. is_digit c"
  shows "extract_int_candidates s = Inl ValueError"
proof -
  from assms(1) have "s \<noteq> []" by auto
  with assms show ?thesis by (simp add: extract_digits int_of_digits_def)
qed

text \<open>
  C4, as amended: whenever \<^verbatim>\<open>_pick_patient_count\<close> returns an integer, it is from 0 to
  9999 and none of the years 2020 to 2026; the only exception it raises is the
  \<^verbatim>\<open>ValueError\<close> of \<^verbatim>\<open>int\<close>; it returns when no text is longer than 4300 characters;
  and on a text whose only integer token is such a year it returns \<^verbatim>\<open>None\<close>.
\<close>

theorem pick_patient_count_range:
  "(pick_patient_count texts = Inr (Some n) \<longrightarrow>
      0 \<le> n \<and> n \<le> 9999 \<and> n \<notin> {2020, 2021, 2022, 2023, 2024, 2025, 2026})
   \<and> (pick_patient_count texts = Inl e \<longrightarrow> e = ValueError)
   \<and> ((\<forall>t\<in>set texts. length t \<le> 4300) \<longrightarrow> (\<exists>r. pick_patient_count texts = Inr r))
   \<and> (extract_int_candidates t = Inr [y] \<and> 2020 \<le> y \<and> y \<le> 2026 \<longrightarrow>
        pick_patient_count [t] = Inr None)"
proof (intro conjI impI)
  assume "pick_patient_count texts = Inr (Some n)"
  then have "plausible n" by (rule pick_Some_plausible)
  then show "0 \<le> n" and "n \<le> 9999" and "n \<notin> {2020, 2021, 2022, 2023, 2024, 2025, 2026}"
    by (simp_all add: plausible_def)
next
  assume "pick_patient_count texts = Inl e"
  then show "e = ValueError" by (rule pick_error)
next
  assume "\<forall>t\<in>set texts. length t \<le> 4300"
  then show "\<exists>r. pick_patient_count texts = Inr r" by (rule pick_short)
next
  assume h: "extract_int_candidates t = Inr [y] \<and> 2020 \<le> y \<and> y \<le> 2026"
  then have np: "\<not> plausible y" by (auto simp: plausible_def)
  show "pick_patient_count [t] = Inr None"
  proof (cases "t = []")
    case True
    then show ?thesis by (simp add: pick_patient_count_def)
  next
    case False
    with h np show ?thesis by (simp add: pick_patient_count_def)
  qed
qed

theorem pick_patient_count_range_witness:
  "extract_int_candidates ''Em 2024'' = Inr [2024]
   \<and> pick_patient_count [''Em 2024''] = Inr None
   \<and> pick_patient_count [''2025 fila 17''] = Inr (Some 17)
   \<and> (\<exists>r. pick_patient_count ['''', ''12:00:00''] = Inr r)"
proof -
  have h: "extract_int_candidates ''Em 2024'' = Inr [2024] \<and> (2020::int) \<le> 2024 \<and> (2024::int) \<le> 2026"
    by code_simp
  have g: "pick_patient_count [''2025 fila 17''] = Inr (Some 17)" by code_simp
  have l: "\<forall>t\<in>set ['''', ''12:00:00'']. length t \<le> 4300" by simp
  from pick_patient_count_range [of "['''', ''12:00:00'']" 0 ValueError "''Em 2024''" 2024] h l
  have "pick_patient_count [''Em 2024''] = Inr None"
    and "\<exists>r. pick_patient_count ['''', ''12:00:00''] = Inr r"
    by blast+
  with h g show ?thesis by blast
qed

text \<open>
  C4, as stated, fails: on a run of 4301 digits, and on 5000 zeros followed by 2024 (the
  only integer token, a year), \<^verbatim>\<open>_pick_patient_count\<close> raises instead of returning.
\<close>

theorem pick_patient_count_raises:
  "pick_patient_count [replicate 4301 (CHR ''9'')] = Inl ValueError
   \<and> pick_patient_count [replicate 5000 (CHR ''0'') @ ''2024''] = Inl ValueError"
proof
  have "extract_int_candidates (replicate 4301 (CHR ''9'')) = Inl ValueError"
    by (rule extract_long_digits) (simp_all add: is_digit_def)
  then show "pick_patient_count [replicate 4301 (CHR ''9'')] = Inl ValueError"
    by (simp add: pick_patient_count_def)
next
  have "extract_int_candidates (replicate 5000 (CHR ''0'') @ ''2024'') = Inl ValueError"
    by (rule extract_long_digits) (auto simp: is_digit_def)
  then show "pick_patient_count [replicate 5000 (CHR ''0'') @ ''2024''] = Inl ValueError"
    by (simp add: pick_patient_count_def)
qed

text \<open>
  C10, as amended: in the call \<^verbatim>\<open>_pick_patient_count(aria_raw, el_text)\<close> made by the
  parser, the candidates of the label come first: when the label has a plausible integer
  and the integers of the element's text convert (as they do when that text has at most
  4300 characters), the first plausible integer of the label is the result, whatever
  the text of the element is.
\<close>

theorem label_first:
  "(extract_int_candidates aria_raw = Inr cs \<and> filter plausible cs \<noteq> []
      \<and> extract_int_candidates el_text = Inr ds \<longrightarrow>
        pick_patient_count [aria_raw, el_text] = Inr (Some (hd (filter plausible cs))))
   \<and> (extract_int_candidates aria_raw = Inr cs \<and> filter plausible cs \<noteq> []
      \<and> length el_text \<le> 4300 \<longrightarrow>
        pick_patient_count [aria_raw, el_text] = Inr (Some (hd (filter plausible cs))))"
proof -
  have main: "pick_patient_count [aria_raw, el_text] = Inr (Some (hd (filter plausible cs)))"
    if a: "extract_int_candidates aria_raw = Inr cs" and f: "filter plausible cs \<noteq> []"
      and e: "extract_int_candidates el_text = Inr ds" for ds
  proof -
    from f obtain n ns where n: "filter plausible cs = n # ns"
      by (cases "filter plausible cs") auto
    from f a have ne: "aria_raw \<noteq> []"
      by (auto simp: extract_int_candidates_def)
    from a e ne n show ?thesis
      by (simp add: pick_patient_count_def)
  qed
  show ?thesis
  proof (intro conjI impI)
    assume "extract_int_candidates aria_raw = Inr cs \<and> filter plausible cs \<noteq> []
      \<and> extract_int_candidates el_text = Inr ds"
    then show "pick_patient_count [aria_raw, el_text] = Inr (Some (hd (filter plausible cs)))"
      using main by blast
  next
    assume h: "extract_int_candidates aria_raw = Inr cs \<and> filter plausible cs \<noteq> []
      \<and> length el_text \<le> 4300"
    then obtain ds' where "extract_int_candidates el_text = Inr ds'"
      using extract_short [of el_text] by blast
    with h show "pick_patient_count [aria_raw, el_text] = Inr (Some (hd (filter plausible cs)))"
      using main by blast
  qed
qed

theorem label_first_witness:
  "extract_int_candidates ''Pacientes: 12 (2025)'' = Inr [12, 2025]
   \<and> pick_patient_count [''Pacientes: 12 (2025)'', ''99 00:10:00''] = Inr (Some 12)"
proof -
  have h: "extract_int_candidates ''Pacientes: 12 (2025)'' = Inr [12, 2025]"
    by code_simp
  have f: "filter plausible [12, 2025] \<noteq> []" "hd (filter plausible [12, 2025]) = 12"
    by (simp_all add: plausible_def)
  have l: "length ''99 00:10:00'' \<le> 4300" by simp
  from label_first [of "''Pacientes: 12 (2025)''" "[12, 2025]" "''99 00:10:00''" "[]"] h f(1) l
  have "pick_patient_count [''Pacientes: 12 (2025)'', ''99 00:10:00'']
        = Inr (Some (hd (filter plausible [12, 2025])))"
    by blast
  with h f(2) show ?thesis by simp
qed

text \<open>
  C10, as stated, fails: every text is converted before the filter, so a run of 4301
  digits in the element's text makes the call raise although the label holds 12.
\<close>

theorem label_first_text_raises:
  "pick_patient_count [''12'', ''''] = Inr (Some 12)
   \<and> pick_patient_count [''12'', replicate 4301 (CHR ''9'')] = Inl ValueError"
proof
  show "pick_patient_count [''12'', ''''] = Inr (Some 12)" by code_simp
next
  have a: "extract_int_candidates ''12'' = Inr [12]" by code_simp
  have "extract_int_candidates (replicate 4301 (CHR ''9'')) = Inl ValueError"
    by (rule extract_long_digits) (simp_all add: is_digit_def)
  moreover have "replicate 4301 (CHR ''9'') \<noteq> []" by simp
  ultimately show "pick_patient_count [''12'', replicate 4301 (CHR ''9'')] = Inl ValueError"
    using a by (simp add: pick_patient_count_def)
qed

subsection \<open>Time stamps\<close>

lemma hms_prefix_append: "hms_prefix ts \<Longrightarrow> hms_prefix (ts @ post)"
  by (erule hms_prefixE) simp

lemma hms_prefix_take: "hms_prefix s = hms_prefix (take 8 s)"
  by (cases s rule: hms_prefix.cases) simp_all

lemma hms_prefix_length: "hms_prefix s \<Longrightarrow> 8 \<le> length s"
  by (erule hms_prefixE) simp

lemma digit_not_blank: "is_digit c \<Longrightarrow> c \<noteq> CHR '' ''"
  by (auto simp: is_digit_def)

lemma hms_prefix_no_blank: "hms_prefix s \<Longrightarrow> CHR '' '' \<notin> set (take 8 s)"
  by (erule hms_prefixE) (auto dest: digit_not_blank)

lemma hms_prefix_long: "8 \<le> length u \<Longrightarrow> hms_prefix (u @ r) = hms_prefix u"
proof -
  assume "8 \<le> length u"
  then have "take 8 (u @ r) = take 8 u" by simp
  then show ?thesis by (metis hms_prefix_take)
qed

lemma hms_prefix_short_blank:
  assumes "length u < 8"
  shows "\<not> hms_prefix (u @ CHR '' '' # post)"
proof
  assume h: "hms_prefix (u @ CHR '' '' # post)"
  have e: "8 - length u = Suc (7 - length u)" using assms by simp
  have "take 8 (u @ CHR '' '' # post) = take 8 u @ take (8 - length u) (CHR '' '' # post)"
    by (rule take_append)
  also have "\<dots> = u @ CHR '' '' # take (7 - length u) post"
    using assms unfolding e by simp
  finally have "CHR '' '' \<in> set (take 8 (u @ CHR '' '' # post))" by simp
  moreover from h have "CHR '' '' \<notin> set (take 8 (u @ CHR '' '' # post))"
    by (rule hms_prefix_no_blank)
  ultimately show False by simp
qed

lemma overlapped_iff:
  "overlapped s p \<longleftrightarrow> (\<exists>k. 1 \<le> k \<and> k \<le> 7 \<and> k \<le> p \<and> hms_prefix (drop (p - k) s))"
proof
  assume "overlapped s p"
  then obtain k where k: "k \<in> set [1, 2, 3, 4, 5, 6, 7]" "k \<le> p" "hms_prefix (drop (p - k) s)"
    unfolding overlapped_def list_ex_iff by blast
  from k(1) have "1 \<le> k \<and> k \<le> 7" by auto
  with k show "\<exists>k. 1 \<le> k \<and> k \<le> 7 \<and> k \<le> p \<and> hms_prefix (drop (p - k) s)"
    by blast
next
  assume "\<exists>k. 1 \<le> k \<and> k \<le> 7 \<and> k \<le> p \<and> hms_prefix (drop (p - k) s)"
  then obtain k where k: "1 \<le> k" "k \<le> 7" "k \<le> p" "hms_prefix (drop (p - k) s)" by blast
  from k(1,2) have "k \<in> set [1, 2, 3, 4, 5, 6, 7]" by (simp, arith)
  with k show "overlapped s p" unfolding overlapped_def list_ex_iff by blast
qed

lemma sub_hms_split:
  "\<not> overlapped (pre @ rest) (length pre) \<Longrightarrow> sub_hms (pre @ rest) = sub_hms pre @ sub_hms rest"
proof (induction pre rule: sub_hms.induct)
  case 1
  show ?case by simp
next
  case (2 c cs)
  have N: "\<not> hms_prefix (drop (length (c # cs) - k) ((c # cs) @ rest))"
    if "1 \<le> k" "k \<le> 7" "k \<le> length (c # cs)" for k
    using "2.prems" that unfolding overlapped_iff by blast
  show ?case
  proof (cases "hms_prefix (c # cs)")
    case True
    then have l: "7 \<le> length cs" using hms_prefix_length [of "c # cs"] by simp
    have "\<not> overlapped (drop 7 cs @ rest) (length (drop 7 cs))"
      unfolding overlapped_iff
    proof (intro notI, elim exE conjE)
      fix k assume k: "1 \<le> k" "k \<le> 7" "k \<le> length (drop 7 cs)"
        and h: "hms_prefix (drop (length (drop 7 cs) - k) (drop 7 cs @ rest))"
      from k l have a1: "length (c # cs) - k = Suc (length cs - k)" by simp
      from k l have a2: "length (drop 7 cs) - k + 7 = length cs - k" by simp
      have "drop (length (c # cs) - k) ((c # cs) @ rest) = drop (length cs - k) cs @ rest"
        unfolding a1 by simp
      moreover have "drop (length (drop 7 cs) - k) (drop 7 cs @ rest) = drop (length cs - k) cs @ rest"
        using a2 by simp
      ultimately have "drop (length (c # cs) - k) ((c # cs) @ rest)
                       = drop (length (drop 7 cs) - k) (drop 7 cs @ rest)"
        by simp
      with h N [of k] k l show False by simp
    qed
    with True "2.IH"(1) have "sub_hms (drop 7 cs @ rest) = sub_hms (drop 7 cs) @ sub_hms rest"
      by simp
    moreover from True have "hms_prefix ((c # cs) @ rest)" by (rule hms_prefix_append)
    moreover from l have "drop 7 (cs @ rest) = drop 7 cs @ rest" by simp
    ultimately show ?thesis using True by simp
  next
    case False
    have nf: "\<not> hms_prefix ((c # cs) @ rest)"
    proof
      assume h: "hms_prefix ((c # cs) @ rest)"
      show False
      proof (cases "8 \<le> length (c # cs)")
        case True
        with h have "hms_prefix (c # cs)" by (simp only: hms_prefix_long)
        with False show False by simp
      next
        case short: False
        then have "1 \<le> length (c # cs)" "length (c # cs) \<le> 7" by simp_all
        from N [OF this] h show False by simp
      qed
    qed
    have "\<not> overlapped (cs @ rest) (length cs)"
      unfolding overlapped_iff
    proof (intro notI, elim exE conjE)
      fix k assume k: "1 \<le> k" "k \<le> 7" "k \<le> length cs"
        and h: "hms_prefix (drop (length cs - k) (cs @ rest))"
      from k have "length (c # cs) - k = Suc (length cs - k)" by simp
      then have "drop (length (c # cs) - k) ((c # cs) @ rest) = drop (length cs - k) (cs @ rest)"
        by simp
      with h N [of k] k show False by simp
    qed
    with False "2.IH"(2) have "sub_hms (cs @ rest) = sub_hms cs @ sub_hms rest" by simp
    with False nf show ?thesis by simp
  qed
qed

lemma sub_hms_exact:
  "hms_prefix ts \<Longrightarrow> length ts = 8 \<Longrightarrow> sub_hms (ts @ post) = CHR '' '' # sub_hms post"
proof -
  assume h: "hms_prefix ts" and l: "length ts = 8"
  then obtain c cs where ts: "ts = c # cs" by (cases ts) auto
  with l have "length cs = 7" by simp
  then have "drop 7 (cs @ post) = post" by simp
  with h ts show ?thesis using hms_prefix_append [of ts post] by simp
qed

lemma sub_hms_blank: "sub_hms (CHR '' '' # post) = CHR '' '' # sub_hms post"
proof -
  have "\<not> hms_prefix (CHR '' '' # post)"
    using hms_prefix_no_blank [of "CHR '' '' # post"] by auto
  then show ?thesis by simp
qed

lemma blank_not_overlapped: "\<not> overlapped (pre @ CHR '' '' # post) (length pre)"
  unfolding overlapped_iff
proof (intro notI, elim exE conjE)
  fix k assume k: "1 \<le> k" "k \<le> 7" "k \<le> length pre"
    and h: "hms_prefix (drop (length pre - k) (pre @ CHR '' '' # post))"
  let ?u = "drop (length pre - k) pre"
  from k have u: "length ?u < 8" by simp
  from k have "drop (length pre - k) (pre @ CHR '' '' # post) = ?u @ CHR '' '' # post" by simp
  with h have "hms_prefix (?u @ CHR '' '' # post)" by simp
  with hms_prefix_short_blank [OF u] show False by blast
qed

lemma sub_hms_around_blank:
  "sub_hms (pre @ CHR '' '' # post) = sub_hms pre @ CHR '' '' # sub_hms post"
  by (simp only: sub_hms_split [OF blank_not_overlapped] sub_hms_blank)

lemma sub_hms_around_stamp:
  assumes "\<not> overlapped (pre @ ts @ post) (length pre)" "hms_prefix ts" "length ts = 8"
  shows "sub_hms (pre @ ts @ post) = sub_hms pre @ CHR '' '' # sub_hms post"
  by (simp only: sub_hms_split [OF assms(1)] sub_hms_exact [OF assms(2,3)])

lemma sub_hms_take:
  "take n (sub_hms cs) = t \<Longrightarrow> length t = n \<Longrightarrow> CHR '' '' \<notin> set t \<Longrightarrow> take n cs = t"
proof (induction n arbitrary: cs t)
  case 0
  then show ?case by simp
next
  case (Suc m)
  show ?case
  proof (cases cs)
    case Nil
    with Suc.prems show ?thesis by simp
  next
    case (Cons d ds)
    show ?thesis
    proof (cases "hms_prefix (d # ds)")
      case True
      with Cons Suc.prems show ?thesis by auto
    next
      case False
      with Cons Suc.prems obtain t' where t: "t = d # t'" "take m (sub_hms ds) = t'"
        by auto
      with Suc.prems have "length t' = m" "CHR '' '' \<notin> set t'" by auto
      with t(2) have "take m ds = t'" by (rule Suc.IH)
      with t Cons show ?thesis by simp
    qed
  qed
qed

lemma hms_prefix_through_sub:
  assumes "hms_prefix (c # sub_hms cs)"
  shows "hms_prefix (c # cs)"
proof -
  from assms obtain a b d e g h r where
    s: "c # sub_hms cs = a # b # CHR '':'' # d # e # CHR '':'' # g # h # r" and
    dg: "is_digit a" "is_digit b" "is_digit d" "is_digit e" "is_digit g" "is_digit h"
    by (rule hms_prefixE)
  let ?t = "[b, CHR '':'', d, e, CHR '':'', g, h]"
  from s have "take 7 (sub_hms cs) = ?t" by simp
  moreover have "length ?t = 7" by simp
  moreover have "CHR '' '' \<notin> set ?t" using dg digit_not_blank by auto
  ultimately have "take 7 cs = ?t" by (rule sub_hms_take)
  then have "cs = ?t @ drop 7 cs" by (metis append_take_drop_id)
  then obtain rest where "cs = b # CHR '':'' # d # e # CHR '':'' # g # h # rest" by auto
  with s dg show ?thesis by simp
qed

lemma sub_hms_no_shape: "\<not> hms_prefix (drop i (sub_hms s))"
proof (induction s arbitrary: i rule: sub_hms.induct)
  case 1
  show ?case by simp
next
  case (2 c cs)
  show ?case
  proof (cases "hms_prefix (c # cs)")
    case True
    show ?thesis
    proof (cases i)
      case 0
      have "\<not> hms_prefix (CHR '' '' # sub_hms (drop 7 cs))"
        using hms_prefix_no_blank [of "CHR '' '' # sub_hms (drop 7 cs)"] by auto
      with True 0 show ?thesis by simp
    next
      case (Suc j)
      with True "2.IH"(1) [of j] show ?thesis by simp
    qed
  next
    case False
    show ?thesis
    proof (cases i)
      case 0
      with False hms_prefix_through_sub [of c cs] show ?thesis by auto
    next
      case (Suc j)
      with False "2.IH"(2) [of j] show ?thesis by simp
    qed
  qed
qed

text \<open>
  C5, as amended: the substrings of the shape \<^verbatim>\<open>HH:MM:SS\<close> found by the scan from the
  left are replaced by a blank before the integers are taken, so that the text they are
  taken from holds no such shape. A time stamp that no such shape beginning before it
  overlaps yields no candidate: the candidates, and the result, are those of the text
  with a blank in its place. So \<^verbatim>\<open>"03 00:10:00 pacientes"\<close> gives 3.
\<close>

theorem timestamp_is_blank:
  "\<not> hms_prefix (drop i (sub_hms s))
   \<and> (\<not> overlapped (pre @ ts @ post) (length pre) \<and> hms_prefix ts \<and> length ts = 8 \<longrightarrow>
        extract_int_candidates (pre @ ts @ post) = extract_int_candidates (pre @ '' '' @ post)
        \<and> pick_patient_count [pre @ ts @ post] = pick_patient_count [pre @ '' '' @ post])
   \<and> pick_patient_count [''03 00:10:00 pacientes''] = Inr (Some 3)"
proof (intro conjI impI)
  show "\<not> hms_prefix (drop i (sub_hms s))" by (rule sub_hms_no_shape)
next
  assume a: "\<not> overlapped (pre @ ts @ post) (length pre) \<and> hms_prefix ts \<and> length ts = 8"
  then have "sub_hms (pre @ ts @ post) = sub_hms (pre @ '' '' @ post)"
    by (simp add: sub_hms_around_stamp sub_hms_around_blank)
  then show e: "extract_int_candidates (pre @ ts @ post) = extract_int_candidates (pre @ '' '' @ post)"
    by (simp add: extract_int_candidates_def)
  from a have "ts \<noteq> []" by auto
  with e show "pick_patient_count [pre @ ts @ post] = pick_patient_count [pre @ '' '' @ post]"
    by (simp add: pick_patient_count_def)
next
  show "pick_patient_count [''03 00:10:00 pacientes''] = Inr (Some 3)" by code_simp
qed

theorem timestamp_is_blank_witness:
  "extract_int_candidates (''Tempo: '' @ ''00:10:00'' @ '' 12'')
     = extract_int_candidates (''Tempo: '' @ '' '' @ '' 12'')
   \<and> pick_patient_count [''03 '' @ ''00:10:00'' @ '' pacientes'']
     = pick_patient_count [''03 '' @ '' '' @ '' pacientes'']
   \<and> pick_patient_count [''03 00:10:00 pacientes''] = Inr (Some 3)"
proof -
  have h: "\<not> overlapped (''Tempo: '' @ ''00:10:00'' @ '' 12'') (length ''Tempo: '')
           \<and> hms_prefix ''00:10:00'' \<and> length ''00:10:00'' = 8"
    by code_simp
  have g: "\<not> overlapped (''03 '' @ ''00:10:00'' @ '' pacientes'') (length ''03 '')
           \<and> hms_prefix ''00:10:00'' \<and> length ''00:10:00'' = 8"
    by code_simp
  from timestamp_is_blank [where pre = "''Tempo: ''" and ts = "''00:10:00''" and post = "'' 12''"] h
       timestamp_is_blank [where pre = "''03 ''" and ts = "''00:10:00''" and post = "'' pacientes''"] g
  show ?thesis by blast
qed

text \<open>
  C5, as stated, fails where two shapes overlap: \<^verbatim>\<open>"10:20:30:40"\<close> holds
  \<^verbatim>\<open>20:30:40\<close> at offset 3, the scan removes \<^verbatim>\<open>10:20:30\<close> only, and the result is the
  field 40 of the second shape.
\<close>

theorem overlapping_timestamp_digits:
  "hms_prefix (drop 3 ''10:20:30:40'') \<and> length (drop 3 ''10:20:30:40'') = 8
   \<and> overlapped ''10:20:30:40'' 3
   \<and> pick_patient_count [''10:20:30:40''] = Inr (Some 40)"
  by code_simp

section \<open>Properties of the parser\<close>

text \<open>
  C1: a scalar metric is meant to keep the first value that is not \<^verbatim>\<open>None\<close>, as the
  classification branch does for its fields. The loop assigns the three scalar metrics
  without that guard: with two elements labelled \<^verbatim>\<open>Pacientes na unidade\<close>, the first
  with the text 12, the result holds what the second one gives, \<^verbatim>\<open>None\<close> for an empty
  element and 7 for the text 7.
\<close>

theorem scalar_metric_overwritten:
  "map_sum id pacientes_unidade (parse_soup \<lparr> doc_text = ''12'', label_nodes = [(''Pacientes na unidade'', ''12'')] \<rparr>) = Inr (Some 12)
   \<and> map_sum id pacientes_unidade (parse_soup \<lparr> doc_text = ''12'', label_nodes = [(''Pacientes na unidade'', ''12''), (''Pacientes na unidade'', '''')] \<rparr>) = Inr None
   \<and> map_sum id pacientes_unidade (parse_soup \<lparr> doc_text = ''12 7'', label_nodes = [(''Pacientes na unidade'', ''12''), (''Pacientes na unidade'', ''7'')] \<rparr>) = Inr (Some 7)"
  by code_simp

lemma shaped_initial: "shaped (initial_out sp)"
  by (simp add: shaped_def initial_out_def COLORS_def)

lemma shaped_classify:
  assumes "shaped out" "classify_node out aria_raw el_text aria el_text_norm = Inr out'"
  shows "shaped out'"
proof (cases "find (\<lambda>c. str_in c aria \<or> str_in c el_text_norm) COLORS")
  case None
  with assms show ?thesis by (simp add: classify_node_def)
next
  case (Some color)
  show ?thesis
  proof (cases "list_ex (\<lambda>k. str_in k aria \<or> str_in k el_text_norm) [''CLASSIF'', ''RISCO'', ''TEMPO'', ''PACIENT'']")
    case False
    with Some assms show ?thesis by (simp add: classify_node_def)
  next
    case True
    from assms(2) Some True obtain pacientes where
      p: "pick_patient_count [aria_raw, el_text] = Inr pacientes"
      by (auto simp: classify_node_def Let_def split: sum.splits)
    show ?thesis unfolding shaped_def
    proof
      fix c assume c: "c \<in> set COLORS"
      from assms(1) c obtain d p t where d: "classificacoes out c = Some d" "d ''pacientes'' = Some p" "d ''tempo_medio'' = Some t"
        unfolding shaped_def by blast
      show "\<exists>d p t. classificacoes out' c = Some d \<and> d ''pacientes'' = Some p \<and> d ''tempo_medio'' = Some t"
      proof (cases "c = color")
        case False
        with Some True d p assms(2) show ?thesis
          by (auto simp: classify_node_def Let_def)
      next
        case ceq: True
        with Some True d p assms(2) show ?thesis
          by (auto simp: classify_node_def Let_def)
      qed
    qed
  qed
qed

lemma shaped_node_step: "shaped out \<Longrightarrow> node_step out nd = Inr out' \<Longrightarrow> shaped out'"
proof -
  assume s: "shaped out" and n: "node_step out nd = Inr out'"
  have scalar: "shaped (out\<lparr>pacientes_unidade := x\<rparr>)" "shaped (out\<lparr>pacientes_regulacao := x\<rparr>)"
    "shaped (out\<lparr>pacientes_at_medico := x\<rparr>)" for x
    using s by (simp_all add: shaped_def)
  from n s scalar shaped_classify [OF s, of "fst nd" "snd nd" "norm (fst nd)" "norm (snd nd)" out']
  show ?thesis
    by (auto simp: node_step_def Let_def split: if_splits sum.splits)
qed

lemma shaped_nodes_loop: "shaped out \<Longrightarrow> nodes_loop out nds = Inr out' \<Longrightarrow> shaped out'"
proof (induction nds arbitrary: out)
  case Nil
  then show ?case by simp
next
  case (Cons nd nds)
  from Cons.prems(2) obtain out1 where o: "node_step out nd = Inr out1" "nodes_loop out1 nds = Inr out'"
    by (auto split: sum.splits)
  from Cons.prems(1) o(1) have "shaped out1" by (rule shaped_node_step)
  then show ?case using o(2) by (rule Cons.IH)
qed

lemma classify_error: "classify_node out aria_raw el_text aria el_text_norm = Inl e \<Longrightarrow> e = ValueError"
  by (auto simp: classify_node_def Let_def dest: pick_error split: option.splits if_splits sum.splits)

lemma node_step_error: "node_step out nd = Inl e \<Longrightarrow> e = ValueError"
  by (auto simp: node_step_def Let_def dest: pick_error classify_error split: if_splits sum.splits)

lemma nodes_loop_error: "nodes_loop out nds = Inl e \<Longrightarrow> e = ValueError"
  by (induction nds arbitrary: out) (auto dest: node_step_error split: sum.splits)

lemma node_step_short:
  assumes "length (fst nd) \<le> 4300" "length (snd nd) \<le> 4300"
  shows "\<exists>out'. node_step out nd = Inr out'"
proof -
  from assms obtain n where n: "pick_patient_count [fst nd, snd nd] = Inr n"
    using pick_short [of "[fst nd, snd nd]"] by auto
  then show ?thesis
    by (auto simp: node_step_def classify_node_def Let_def split: option.splits)
qed

lemma nodes_loop_short:
  "\<forall>nd\<in>set nds. length (fst nd) \<le> 4300 \<and> length (snd nd) \<le> 4300 \<Longrightarrow>
   \<exists>out'. nodes_loop out nds = Inr out'"
proof (induction nds arbitrary: out)
  case Nil
  then show ?case by simp
next
  case (Cons nd nds)
  then obtain out1 where "node_step out nd = Inr out1"
    using node_step_short [of nd out] by auto
  with Cons show ?case by simp
qed

lemma length_strip: "length (strip a) \<le> length a"
proof -
  have "length (dropWhile is_space (rev (dropWhile is_space a)))
        \<le> length (rev (dropWhile is_space a))"
    by (rule length_dropWhile_le)
  also have "\<dots> = length (dropWhile is_space a)" by simp
  also have "\<dots> \<le> length a" by (rule length_dropWhile_le)
  finally show ?thesis by (simp add: strip_def)
qed

lemma iter_aria_nodes_short:
  assumes "\<forall>nd\<in>set (label_nodes sp). length (fst nd) \<le> 4300 \<and> length (snd nd) \<le> 4300"
  shows "\<forall>nd\<in>set (iter_aria_nodes sp). length (fst nd) \<le> 4300 \<and> length (snd nd) \<le> 4300"
proof
  fix nd assume "nd \<in> set (iter_aria_nodes sp)"
  then obtain a t where at: "(a, t) \<in> set (label_nodes sp)" "nd = (strip a, t)"
    by (auto simp: iter_aria_nodes_def)
  with assms have "length a \<le> 4300" "length t \<le> 4300" by auto
  with at(2) length_strip [of a] show "length (fst nd) \<le> 4300 \<and> length (snd nd) \<le> 4300"
    by simp
qed

lemma fallback_step_ok:
  assumes "shaped out" "c \<in> set COLORS"
  shows "\<exists>out'. fallback_step big_text big_norm out c = Inr out' \<and> shaped out'"
proof -
  from assms obtain d p t where d: "classificacoes out c = Some d" "d ''pacientes'' = Some p" "d ''tempo_medio'' = Some t"
    unfolding shaped_def by blast
  have upd: "shaped (out\<lparr>classificacoes := (classificacoes out)(c \<mapsto> d(''pacientes'' \<mapsto> x, ''tempo_medio'' \<mapsto> y))\<rparr>)" for x y
    using assms(1) unfolding shaped_def by simp
  have win: "\<exists>n. pick_patient_count [drop (idx - 120) (take (idx + 220) big_text)] = Inr n" for idx
    by (rule pick_short) simp
  show ?thesis
  proof (cases "p \<noteq> VNone")
    case True
    with d assms(1) show ?thesis by (simp add: fallback_step_def)
  next
    case False
    show ?thesis
    proof (cases "str_find c big_norm")
      case None
      with False d assms(1) show ?thesis by (simp add: fallback_step_def)
    next
      case (Some idx)
      from win [of idx] obtain n where
        n: "pick_patient_count [drop (idx - 120) (take (idx + 220) big_text)] = Inr n" ..
      from False Some d assms(1) upd n show ?thesis
        by (simp add: fallback_step_def Let_def)
    qed
  qed
qed

lemma fallback_loop_ok:
  "shaped out \<Longrightarrow> set cs \<subseteq> set COLORS \<Longrightarrow>
   \<exists>out'. fallback_loop big_text big_norm out cs = Inr out' \<and> shaped out'"
proof (induction cs arbitrary: out)
  case Nil
  then show ?case by simp
next
  case (Cons c cs)
  then obtain out1 where s: "fallback_step big_text big_norm out c = Inr out1" "shaped out1"
    using fallback_step_ok [of out c big_text big_norm] by auto
  with Cons.IH [of out1] Cons.prems show ?case by simp
qed

lemma parse_soup_cases:
  "(\<exists>e. nodes_loop (initial_out sp) (iter_aria_nodes sp) = Inl e \<and> parse_soup sp = Inl e)
   \<or> (\<exists>out r. nodes_loop (initial_out sp) (iter_aria_nodes sp) = Inr out \<and> shaped out
        \<and> parse_soup sp = Inr r \<and> shaped r)"
proof (cases "nodes_loop (initial_out sp) (iter_aria_nodes sp)")
  case (Inl e)
  then show ?thesis by (simp add: parse_soup_def)
next
  case (Inr out)
  with shaped_initial have s: "shaped out" by (rule shaped_nodes_loop)
  then obtain r where "fallback_loop (doc_text sp) (norm (doc_text sp)) out COLORS = Inr r" "shaped r"
    using fallback_loop_ok [of out COLORS] by blast
  with Inr s show ?thesis by (simp add: parse_soup_def)
qed

text \<open>
  C2, as amended: for every markup (and whatever tree the markup library builds from it)
  the parser either returns a result in which each of the five colours has an entry with
  the fields \<^verbatim>\<open>pacientes\<close> and \<^verbatim>\<open>tempo_medio\<close>, possibly \<^verbatim>\<open>None\<close>, or raises the
  \<^verbatim>\<open>ValueError\<close> of \<^verbatim>\<open>int\<close>; it returns when no label and no text of a labelled element
  is longer than 4300 characters.
\<close>

theorem parse_total_shape:
  "(parse_upa_dashboard bs markup = Inr r \<longrightarrow>
      (\<forall>c\<in>set COLORS. \<exists>d p t. classificacoes r c = Some d \<and> d ''pacientes'' = Some p
                                 \<and> d ''tempo_medio'' = Some t))
   \<and> (parse_upa_dashboard bs markup = Inl e \<longrightarrow> e = ValueError)
   \<and> ((\<forall>nd\<in>set (label_nodes (bs markup)). length (fst nd) \<le> 4300 \<and> length (snd nd) \<le> 4300)
        \<longrightarrow> (\<exists>r'. parse_upa_dashboard bs markup = Inr r'))"
proof (intro conjI impI)
  assume "parse_upa_dashboard bs markup = Inr r"
  with parse_soup_cases [of "bs markup"] have "shaped r"
    by (auto simp: parse_upa_dashboard_def)
  then show "\<forall>c\<in>set COLORS. \<exists>d p t. classificacoes r c = Some d \<and> d ''pacientes'' = Some p
                                 \<and> d ''tempo_medio'' = Some t"
    by (simp add: shaped_def)
next
  assume "parse_upa_dashboard bs markup = Inl e"
  with parse_soup_cases [of "bs markup"]
  have "nodes_loop (initial_out (bs markup)) (iter_aria_nodes (bs markup)) = Inl e"
    by (auto simp: parse_upa_dashboard_def)
  then show "e = ValueError" by (rule nodes_loop_error)
next
  assume "\<forall>nd\<in>set (label_nodes (bs markup)). length (fst nd) \<le> 4300 \<and> length (snd nd) \<le> 4300"
  then have "\<forall>nd\<in>set (iter_aria_nodes (bs markup)). length (fst nd) \<le> 4300 \<and> length (snd nd) \<le> 4300"
    by (rule iter_aria_nodes_short)
  then obtain out where "nodes_loop (initial_out (bs markup)) (iter_aria_nodes (bs markup)) = Inr out"
    using nodes_loop_short by blast
  with parse_soup_cases [of "bs markup"] show "\<exists>r'. parse_upa_dashboard bs markup = Inr r'"
    by (auto simp: parse_upa_dashboard_def)
qed

theorem parse_total_shape_witness:
  "\<exists>r d p t. parse_upa_dashboard (\<lambda>m. \<lparr>doc_text = m, label_nodes = []\<rparr>) [] = Inr r
       \<and> classificacoes r ''AZUL'' = Some d \<and> d ''pacientes'' = Some p
       \<and> d ''tempo_medio'' = Some t"
proof -
  let ?bs = "\<lambda>m. \<lparr>doc_text = m, label_nodes = []\<rparr>"
  have c: "''AZUL'' \<in> set COLORS" by (simp add: COLORS_def)
  have s: "\<forall>nd\<in>set (label_nodes (?bs [])). length (fst nd) \<le> 4300 \<and> length (snd nd) \<le> 4300"
    by simp
  note t = parse_total_shape [of ?bs "[]"]
  from t s obtain r where r: "parse_upa_dashboard ?bs [] = Inr r" by blast
  from parse_total_shape [of ?bs "[]" r] r c
  have "\<exists>d p t. classificacoes r ''AZUL'' = Some d \<and> d ''pacientes'' = Some p
                 \<and> d ''tempo_medio'' = Some t"
    by blast
  with r show ?thesis by blast
qed

text \<open>
  C2, as stated, fails: the parser does not catch the exception of \<^verbatim>\<open>int\<close>. For an
  element labelled \<^verbatim>\<open>Pacientes na unidade\<close> whose text is a run of 4301 digits it raises
  \<^verbatim>\<open>ValueError\<close>.
\<close>

theorem parse_raises:
  "parse_upa_dashboard
     (\<lambda>m. \<lparr>doc_text = replicate 4301 (CHR ''9''),
            label_nodes = [(''Pacientes na unidade'', replicate 4301 (CHR ''9''))]\<rparr>) []
   = Inl ValueError"
proof -
  let ?nines = "replicate 4301 (CHR ''9'')"
  have st: "strip ''Pacientes na unidade'' = ''Pacientes na unidade''" by code_simp
  have has: "str_in ''PACIENTES NA UNIDADE'' (norm ''Pacientes na unidade'')" by code_simp
  have a: "extract_int_candidates ''Pacientes na unidade'' = Inr []" by code_simp
  have "extract_int_candidates ?nines = Inl ValueError"
    by (rule extract_long_digits) (simp_all add: is_digit_def)
  moreover have "?nines \<noteq> []" by simp
  ultimately have p: "pick_patient_count [''Pacientes na unidade'', ?nines] = Inl ValueError"
    using a by (simp add: pick_patient_count_def)
  have n: "node_step out (''Pacientes na unidade'', ?nines) = Inl ValueError" for out
    using has p by (simp add: node_step_def Let_def)
  have "iter_aria_nodes \<lparr>doc_text = ?nines, label_nodes = [(''Pacientes na unidade'', ?nines)]\<rparr>
        = [(''Pacientes na unidade'', ?nines)]"
    by (simp add: iter_aria_nodes_def st)
  with n show ?thesis
    by (simp add: parse_upa_dashboard_def parse_soup_def)
qed

section \<open>Properties of the cache store\<close>

lemma set_cached_InrD:
  "set_cached f k v T = Inr f' \<Longrightarrow>
   \<exists>kvs. load_cache f = JObj kvs \<and> f' = Stored (JObj (AList.update k (cache_entry T v) kvs))"
  by (cases "load_cache f") (simp_all add: set_cached_def json_set_def save_cache_def)

lemma get_cached_fresh_entry:
  "load_cache f = JObj kvs \<Longrightarrow> map_of kvs k = Some (cache_entry T v) \<Longrightarrow>
   get_cached rnd f k ttl T' = Inr (if exceeds (rnd (T' - T)) ttl then JNull else v)"
  by (simp add: get_cached_def json_get_def cache_entry_def elapsed_def)

lemma get_after_set:
  assumes "set_cached f k v T = Inr f'"
  shows "get_cached rnd f' k ttl T' = Inr (if exceeds (rnd (T' - T)) ttl then JNull else v)"
proof -
  from assms obtain kvs where f': "f' = Stored (JObj (AList.update k (cache_entry T v) kvs))"
    using set_cached_InrD by blast
  have l: "load_cache f' = JObj (AList.update k (cache_entry T v) kvs)"
    unfolding f' by (simp add: load_cache_def)
  have "map_of (AList.update k (cache_entry T v) kvs) k = Some (cache_entry T v)"
    by (simp add: update_conv')
  with l show ?thesis by (rule get_cached_fresh_entry)
qed

text \<open>
  C7, as amended: \<^verbatim>\<open>get_cached\<close> returns \<^verbatim>\<open>None\<close> when the file is missing, when it
  cannot be read or deserialized, when the stored dictionary has no entry for the key and
  when the entry is falsy; and it returns without raising when the entry is a dictionary
  whose \<^verbatim>\<open>_ts\<close> is absent, a float, a boolean or an integer of magnitude at most
  \<open>2 ^ 53\<close>.
\<close>

theorem get_cached_soft:
  "get_cached rnd Missing k ttl now = Inr JNull
   \<and> get_cached rnd Unreadable k ttl now = Inr JNull
   \<and> (map_of kvs k = None \<longrightarrow> get_cached rnd (Stored (JObj kvs)) k ttl now = Inr JNull)
   \<and> (map_of kvs k = Some item \<and> \<not> json_truthy item \<longrightarrow>
        get_cached rnd (Stored (JObj kvs)) k ttl now = Inr JNull)
   \<and> (map_of kvs k = Some (JObj e)
        \<and> (map_of e ''_ts'' \<in> {None, Some (JFloat r), Some (JBool b), Some (JNonFinite x)}
           \<or> map_of e ''_ts'' = Some (JInt n) \<and> \<bar>n\<bar> \<le> 2 ^ 53)
        \<longrightarrow> (\<exists>res. get_cached rnd (Stored (JObj kvs)) k ttl now = Inr res))"
  by (auto simp add: get_cached_def load_cache_def json_get_def elapsed_def int_to_float_def)

theorem get_cached_soft_witness:
  "get_cached Finite Missing ''u'' 120 0 = Inr JNull
   \<and> get_cached Finite Unreadable ''u'' 120 0 = Inr JNull
   \<and> get_cached Finite (Stored (JObj [(''k'', JInt 1)])) ''u'' 120 0 = Inr JNull
   \<and> get_cached Finite (Stored (JObj [(''u'', JObj [])])) ''u'' 120 0 = Inr JNull
   \<and> (\<exists>res. get_cached Finite (Stored (JObj [(''u'', JObj [(''_ts'', JInt 3)])])) ''u'' 120 0 = Inr res)"
proof -
  have a: "map_of [(''k'', JInt 1)] ''u'' = None" by simp
  have b: "map_of [(''u'', JObj [])] ''u'' = Some (JObj []) \<and> \<not> json_truthy (JObj [])" by simp
  have c: "map_of [(''u'', JObj [(''_ts'', JInt 3)])] ''u'' = Some (JObj [(''_ts'', JInt 3)])
           \<and> (map_of [(''_ts'', JInt 3)] ''_ts'' \<in> {None, Some (JFloat 0), Some (JBool True), Some (JNonFinite NaN)}
              \<or> map_of [(''_ts'', JInt 3)] ''_ts'' = Some (JInt 3) \<and> \<bar>3::int\<bar> \<le> 2 ^ 53)"
    by simp
  from get_cached_soft [of Finite "''u''" 120 0 "[(''k'', JInt 1)]"] a
       get_cached_soft [of Finite "''u''" 120 0 "[(''u'', JObj [])]" "JObj []"] b
       get_cached_soft [of Finite "''u''" 120 0 "[(''u'', JObj [(''_ts'', JInt 3)])]" JNull "[(''_ts'', JInt 3)]" 0 True NaN 3] c
  show ?thesis by blast
qed

text \<open>
  C7, as stated, fails on an entry of unexpected shape: with the file
  \<^verbatim>\<open>{"u": "x"}\<close>, with the file \<^verbatim>\<open>[]\<close> and with an entry whose \<^verbatim>\<open>_ts\<close> is a string,
  \<^verbatim>\<open>get_cached\<close> raises.
\<close>

theorem get_cached_raises:
  "get_cached Finite (Stored (JObj [(''u'', JStr ''x'')])) ''u'' 120 0 = Inl AttributeError
   \<and> get_cached Finite (Stored (JArr [])) ''u'' 120 0 = Inl AttributeError
   \<and> get_cached Finite (Stored (JObj [(''u'', JObj [(''_ts'', JStr ''now''), (''data'', JInt 1)])])) ''u'' 120 0 = Inl TypeError"
  by (simp add: get_cached_def load_cache_def json_get_def elapsed_def)

subsection \<open>Concurrent writers\<close>

lemma entries_after_Nil: "entries_after ws m [] = m"
  by (simp add: entries_after_def)

lemma entries_after_Cons:
  "entries_after ws m (i # order) =
     entries_after ws (m(w_url (ws i) \<mapsto> cache_entry (w_now (ws i)) (w_data (ws i)))) order"
  by (simp add: entries_after_def)

lemma set_all_Cons:
  "set_all ws f (i # order) =
     set_all ws (case set_cached f (w_url (ws i)) (w_data (ws i)) (w_now (ws i)) of
                   Inl e \<Rightarrow> f | Inr g \<Rightarrow> g) order"
  by (simp add: set_all_def)

lemma set_all_object:
  "load_cache f = JObj kvs \<Longrightarrow>
   \<exists>kvs'. load_cache (set_all ws f order) = JObj kvs' \<and> map_of kvs' = entries_after ws (map_of kvs) order"
proof (induction order arbitrary: f kvs)
  case Nil
  then show ?case by (simp add: set_all_def entries_after_Nil)
next
  case (Cons i order)
  let ?kvs = "AList.update (w_url (ws i)) (cache_entry (w_now (ws i)) (w_data (ws i))) kvs"
  have s: "set_cached f (w_url (ws i)) (w_data (ws i)) (w_now (ws i)) = Inr (Stored (JObj ?kvs))"
    using Cons.prems by (simp add: set_cached_def json_set_def save_cache_def)
  have l: "load_cache (Stored (JObj ?kvs)) = JObj ?kvs"
    by (simp add: load_cache_def)
  have m: "map_of ?kvs = (map_of kvs)(w_url (ws i) \<mapsto> cache_entry (w_now (ws i)) (w_data (ws i)))"
    by (rule update_conv')
  from Cons.IH [OF l] obtain kvs' where
    "load_cache (set_all ws (Stored (JObj ?kvs)) order) = JObj kvs'"
    "map_of kvs' = entries_after ws (map_of ?kvs) order"
    by blast
  then show ?case
    unfolding set_all_Cons entries_after_Cons s m by simp
qed

lemma entries_after_other:
  "k \<notin> (\<lambda>i. w_url (ws i)) ` set order \<Longrightarrow> entries_after ws m order k = m k"
  by (induction order arbitrary: m) (simp_all add: entries_after_Nil entries_after_Cons)

lemma entries_after_own:
  "distinct (map (\<lambda>i. w_url (ws i)) order) \<Longrightarrow> i \<in> set order \<Longrightarrow>
   entries_after ws m order (w_url (ws i)) = Some (cache_entry (w_now (ws i)) (w_data (ws i)))"
proof (induction order arbitrary: m)
  case Nil
  then show ?case by simp
next
  case (Cons j order)
  show ?case
  proof (cases "i = j")
    case True
    from Cons.prems(1) have "w_url (ws j) \<notin> (\<lambda>i. w_url (ws i)) ` set order" by simp
    then have "entries_after ws (m(w_url (ws j) \<mapsto> cache_entry (w_now (ws j)) (w_data (ws j)))) order (w_url (ws j))
               = Some (cache_entry (w_now (ws j)) (w_data (ws j)))"
      by (simp add: entries_after_other)
    with True show ?thesis by (simp add: entries_after_Cons)
  next
    case False
    with Cons.prems have "i \<in> set order" "distinct (map (\<lambda>i. w_url (ws i)) order)" by simp_all
    from Cons.IH [OF this(2) this(1)] show ?thesis by (simp add: entries_after_Cons)
  qed
qed

lemma serial_step:
  "run_events ws (f, loc) [Load i, Save i] =
     (case set_cached f (w_url (ws i)) (w_data (ws i)) (w_now (ws i)) of Inl e \<Rightarrow> f | Inr g \<Rightarrow> g,
      loc(i \<mapsto> load_cache f))"
  by (simp add: run_events_def store_step_def set_cached_def split: sum.splits)

lemma serial_run: "fst (run_events ws (f, loc) (serial order)) = set_all ws f order"
proof (induction order arbitrary: f loc)
  case Nil
  show ?case by (simp add: run_events_def serial_def set_all_def)
next
  case (Cons i order)
  have "run_events ws (f, loc) (serial (i # order))
        = run_events ws (run_events ws (f, loc) [Load i, Save i]) (serial order)"
    by (simp add: run_events_def serial_def)
  then show ?case
    using Cons.IH by (simp add: serial_step set_all_Cons)
qed

text \<open>
  C9, as amended: when the callers of \<^verbatim>\<open>set_cached\<close> run one after another, the file
  is the one that the same calls leave when made in sequence, and (the file holding a
  dictionary, the keys being distinct) every caller's value is read back from it, as
  long as its age, as the machine computes it, does not exceed the time to live.
\<close>

theorem serial_writes:
  "fst (run_events ws (f, loc) (serial order)) = set_all ws f order
   \<and> (load_cache f = JObj kvs \<and> distinct (map (\<lambda>i. w_url (ws i)) order) \<and> i \<in> set order \<longrightarrow>
        get_cached rnd (fst (run_events ws (f, loc) (serial order))) (w_url (ws i)) ttl T' =
          Inr (if exceeds (rnd (T' - w_now (ws i))) ttl then JNull else w_data (ws i)))"
proof (intro conjI impI)
  show "fst (run_events ws (f, loc) (serial order)) = set_all ws f order" by (rule serial_run)
next
  assume a: "load_cache f = JObj kvs \<and> distinct (map (\<lambda>i. w_url (ws i)) order) \<and> i \<in> set order"
  then obtain kvs' where k: "load_cache (set_all ws f order) = JObj kvs'"
      "map_of kvs' = entries_after ws (map_of kvs) order"
    using set_all_object by blast
  from a have "entries_after ws (map_of kvs) order (w_url (ws i))
               = Some (cache_entry (w_now (ws i)) (w_data (ws i)))"
    by (simp add: entries_after_own)
  with k have "map_of kvs' (w_url (ws i)) = Some (cache_entry (w_now (ws i)) (w_data (ws i)))"
    by simp
  with k(1) show "get_cached rnd (fst (run_events ws (f, loc) (serial order))) (w_url (ws i)) ttl T' =
          Inr (if exceeds (rnd (T' - w_now (ws i))) ttl then JNull else w_data (ws i))"
    unfolding serial_run by (rule get_cached_fresh_entry)
qed

theorem serial_writes_witness:
  "get_cached Finite (fst (run_events two_writers (Missing, Map.empty) (serial [0, 1]))) ''a'' 120 12 = Inr (JInt 1)
   \<and> fst (run_events two_writers (Missing, Map.empty) (serial [0, 1])) = set_all two_writers Missing [0, 1]"
proof -
  have h: "load_cache Missing = JObj [] \<and> distinct (map (\<lambda>i. w_url (two_writers i)) [0, 1]) \<and> (0::nat) \<in> set [0, 1]"
    by (simp add: load_cache_def two_writers_def)
  note t = serial_writes [of two_writers Missing Map.empty "[0, 1]" "[]" 0 Finite 120 12]
  from t have 1: "fst (run_events two_writers (Missing, Map.empty) (serial [0, 1]))
                  = set_all two_writers Missing [0, 1]"
    by (rule conjunct1)
  from t h have "get_cached Finite (fst (run_events two_writers (Missing, Map.empty) (serial [0, 1])))
                   (w_url (two_writers 0)) 120 12
                 = Inr (if exceeds (Finite (12 - w_now (two_writers 0))) 120 then JNull else w_data (two_writers 0))"
    by blast
  then have 2: "get_cached Finite (fst (run_events two_writers (Missing, Map.empty) (serial [0, 1]))) ''a'' 120 12
                = Inr (JInt 1)"
    by (simp add: two_writers_def exceeds_def)
  from 2 1 show ?thesis by blast
qed

text \<open>
  C9, as stated, fails: \<^verbatim>\<open>set_cached\<close> takes no lock. When two callers load the
  (missing) file before either saves, the second save overwrites the first: the entry of
  the first caller is lost, and the file is the result of neither serial order.
\<close>

theorem interleaved_write_lost:
  "fst (run_events two_writers (Missing, Map.empty) [Load 0, Load 1, Save 0, Save 1])
     = Stored (JObj [(''b'', cache_entry 11 (JInt 2))])
   \<and> get_cached Finite (fst (run_events two_writers (Missing, Map.empty) [Load 0, Load 1, Save 0, Save 1])) ''a'' 120 12
     = Inr JNull
   \<and> set_all two_writers Missing [0, 1]
     = Stored (JObj [(''a'', cache_entry 10 (JInt 1)), (''b'', cache_entry 11 (JInt 2))])
   \<and> set_all two_writers Missing [1, 0]
     = Stored (JObj [(''b'', cache_entry 11 (JInt 2)), (''a'', cache_entry 10 (JInt 1))])"
  by (simp add: run_events_def store_step_def two_writers_def load_cache_def save_cache_def
        json_set_def set_all_def set_cached_def get_cached_def json_get_def)

subsection \<open>Rounding\<close>

lemma round_half_even_le: "x \<le> of_int n \<Longrightarrow> round_half_even x \<le> n"
proof -
  assume a: "x \<le> of_int n"
  show ?thesis
  proof (cases "x = of_int n")
    case True
    then show ?thesis by (simp add: round_half_even_def)
  next
    case False
    with a have "x < of_int n" by simp
    then have "\<lfloor>x\<rfloor> < n" by (simp add: floor_less_iff)
    then show ?thesis by (simp add: round_half_even_def Let_def)
  qed
qed

lemma round_half_even_nonneg: "0 \<le> x \<Longrightarrow> 0 \<le> round_half_even x"
proof -
  assume "0 \<le> x"
  then have "0 \<le> \<lfloor>x\<rfloor>" by simp
  then show ?thesis by (simp add: round_half_even_def Let_def)
qed

lemma round_double_within:
  assumes "0 \<le> ttl" "ttl < 2 ^ 53" "x \<le> of_int ttl"
  shows "\<not> exceeds (round_double x) ttl"
proof -
  consider "x = 0" | "x < 0" | "0 < x" by linarith
  then show ?thesis
  proof cases
    case 1
    with assms(1) show ?thesis by (simp add: round_double_def exceeds_def)
  next
    case 2
    define u :: real where "u = 2 powr (of_int (max \<lfloor>log 2 \<bar>x\<bar>\<rfloor> (- 1022)) - 52)"
    have up: "0 < u" by (simp add: u_def)
    from 2 up have "x / u \<le> of_int 0" by (simp add: divide_nonpos_pos)
    then have "round_half_even (x / u) \<le> 0" by (rule round_half_even_le)
    then have "of_int (round_half_even (x / u)) * u \<le> 0"
      using up by (simp add: mult_nonpos_nonneg)
    moreover from assms(1) have "(0::real) \<le> of_int ttl" by simp
    ultimately have nt: "\<not> of_int ttl < of_int (round_half_even (x / u)) * u"
      by linarith
    from 2 have x0: "(x = 0) = False" "(0 < x) = False" by simp_all
    show ?thesis
      unfolding round_double_def Let_def x0 if_False
      using nt unfolding u_def by (simp add: exceeds_def)
  next
    case 3
    define e where "e = max \<lfloor>log 2 \<bar>x\<bar>\<rfloor> (- 1022)"
    define u :: real where "u = 2 powr (of_int e - 52)"
    define y where "y = of_int (round_half_even (x / u)) * u"
    have up: "0 < u" by (simp add: u_def)
    from assms(2) have tl: "(of_int ttl :: real) < 2 ^ 53"
    proof -
      from assms(2) have "(of_int ttl :: real) < of_int (2 ^ 53)" by (simp only: of_int_less_iff)
      then show ?thesis by simp
    qed
    with assms(3) have xl: "x < 2 ^ 53" by linarith
    have "log 2 x < 53"
    proof (rule ccontr)
      assume "\<not> log 2 x < 53"
      then have "53 \<le> log 2 x" by simp
      then have "2 powr 53 \<le> x" using 3 by (simp add: le_log_iff)
      with xl show False by simp
    qed
    then have "\<lfloor>log 2 x\<rfloor> \<le> 52" by (simp add: floor_le_iff)
    with 3 have el: "e \<le> 52" by (simp add: e_def)
    define m where "m = nat (52 - e)"
    from el have me: "of_int e - 52 = - real m" by (simp add: m_def)
    have u2: "u = 1 / 2 ^ m"
      unfolding u_def me by (simp add: powr_minus powr_realpow inverse_eq_divide)
    have "x / u \<le> of_int ttl / u" using assms(3) up by (simp add: divide_right_mono)
    also have "of_int ttl / u = of_int (ttl * 2 ^ m)" by (simp add: u2)
    finally have "round_half_even (x / u) \<le> ttl * 2 ^ m" by (rule round_half_even_le)
    then have "of_int (round_half_even (x / u)) \<le> (of_int (ttl * 2 ^ m) :: real)"
      by (simp only: of_int_le_iff)
    then have "y \<le> of_int (ttl * 2 ^ m) * u"
      unfolding y_def using up by (simp add: mult_right_mono)
    also have "of_int (ttl * 2 ^ m) * u = of_int ttl" by (simp add: u2)
    finally have yt: "y \<le> of_int ttl" .
    from 3 up have "0 \<le> x / u" by simp
    then have "0 \<le> round_half_even (x / u)" by (rule round_half_even_nonneg)
    then have y0: "0 \<le> y" unfolding y_def using up by simp
    have "(2::real) ^ 53 < 2 ^ 1024" by (rule power_strict_increasing) simp_all
    moreover have "(2::real) powr 1024 = 2 ^ 1024" by simp
    ultimately have "y < 2 powr 1024" using tl yt by linarith
    with y0 have ny: "(2 powr 1024 \<le> \<bar>y\<bar>) = False" by simp
    from 3 have x0: "(x = 0) = False" by simp
    have "round_double x = Finite y"
      unfolding round_double_def Let_def x0 if_False
      unfolding e_def [symmetric] u_def [symmetric] y_def [symmetric] ny if_False ..
    with yt show ?thesis by (simp add: exceeds_def)
  qed
qed

lemma round_double_boundary:
  "round_double (36028797018963971 / 36028797018963968) = Finite 1"
proof -
  let ?x = "36028797018963971 / 36028797018963968 :: real"
  have f: "\<lfloor>log 2 \<bar>?x\<bar>\<rfloor> = 0"
    by (subst floor_log_eq_powr_iff) simp_all
  have u: "(2::real) powr (of_int (max 0 (- 1022)) - 52) = 1 / 4503599627370496"
    by (simp add: powr_minus inverse_eq_divide)
  have q: "?x / (1 / 4503599627370496) = 36028797018963971 / 8" by simp
  have r: "round_half_even (36028797018963971 / 8) = 4503599627370496"
    by (simp add: round_half_even_def Let_def)
  have "(2::real) powr 1024 = 2 ^ 1024" by simp
  then have b: "\<not> (2::real) powr 1024 \<le> 1" by simp
  show ?thesis
    unfolding round_double_def Let_def f u q r using b by simp
qed

text \<open>
  C6, as amended: after \<^verbatim>\<open>set_cached(k, v)\<close> at time \<open>T\<close>, \<^verbatim>\<open>get_cached(k, ttl)\<close> at time
  \<open>T'\<close> on the file it wrote returns \<^verbatim>\<open>None\<close> when the difference \<open>T' - T\<close>, as the
  machine computes it, exceeds \<open>ttl\<close>, and \<open>v\<close> otherwise; for a \<open>ttl\<close> from 0 to
  \<open>2 ^ 53\<close> it returns \<open>v\<close> whenever \<open>T' - T \<le> ttl\<close>.
\<close>

theorem cache_round_trip:
  "(set_cached f k v T = Inr f' \<longrightarrow>
      get_cached rnd f' k ttl T' = Inr (if exceeds (rnd (T' - T)) ttl then JNull else v))
   \<and> (set_cached f k v T = Inr f' \<and> 0 \<le> ttl \<and> ttl < 2 ^ 53 \<and> T' - T \<le> of_int ttl \<longrightarrow>
        get_cached round_double f' k ttl T' = Inr v)"
proof (intro conjI impI)
  assume "set_cached f k v T = Inr f'"
  then show "get_cached rnd f' k ttl T' = Inr (if exceeds (rnd (T' - T)) ttl then JNull else v)"
    by (rule get_after_set)
next
  assume a: "set_cached f k v T = Inr f' \<and> 0 \<le> ttl \<and> ttl < 2 ^ 53 \<and> T' - T \<le> of_int ttl"
  then have "\<not> exceeds (round_double (T' - T)) ttl"
    using round_double_within [of ttl "T' - T"] by blast
  moreover from a have "get_cached round_double f' k ttl T'
      = Inr (if exceeds (round_double (T' - T)) ttl then JNull else v)"
    using get_after_set by blast
  ultimately show "get_cached round_double f' k ttl T' = Inr v" by simp
qed

theorem cache_round_trip_witness:
  "set_cached Missing ''u'' (JStr ''v'') 100 = Inr (Stored (JObj [(''u'', cache_entry 100 (JStr ''v''))]))
   \<and> get_cached round_double (Stored (JObj [(''u'', cache_entry 100 (JStr ''v''))])) ''u'' 120 220 = Inr (JStr ''v'')
   \<and> get_cached Finite (Stored (JObj [(''u'', cache_entry 100 (JStr ''v''))])) ''u'' 120 221 = Inr JNull"
proof -
  let ?f = "Stored (JObj [(''u'', cache_entry 100 (JStr ''v''))])"
  have s: "set_cached Missing ''u'' (JStr ''v'') 100 = Inr ?f"
    by (simp add: set_cached_def load_cache_def json_set_def save_cache_def)
  have h: "(0::int) \<le> 120 \<and> (120::int) < 2 ^ 53 \<and> (220::real) - 100 \<le> of_int 120" by simp
  from cache_round_trip [of Missing "''u''" "JStr ''v''" 100 ?f Finite 120 220] s h
  have 1: "get_cached round_double ?f ''u'' 120 220 = Inr (JStr ''v'')" by blast
  from cache_round_trip [of Missing "''u''" "JStr ''v''" 100 ?f Finite 120 221] s
  have "get_cached Finite ?f ''u'' 120 221
        = Inr (if exceeds (Finite (221 - 100)) 120 then JNull else JStr ''v'')"
    by blast
  then have 2: "get_cached Finite ?f ''u'' 120 221 = Inr JNull" by (simp add: exceeds_def)
  from s 1 2 show ?thesis by blast
qed

text \<open>
  C6, as stated, fails at the boundary: with \<open>T\<close> the double nearest to 0.1, \<open>T'\<close> the
  double nearest to 1.1 and \<open>ttl = 1\<close>, the difference \<open>T' - T\<close> is above 1, the
  machine rounds it to 1, and the entry is still returned.
\<close>

theorem cache_boundary_hit:
  "set_cached Missing ''u'' (JStr ''v'') (3602879701896397 / 36028797018963968)
     = Inr (Stored (JObj [(''u'', cache_entry (3602879701896397 / 36028797018963968) (JStr ''v''))]))
   \<and> (of_int 1 :: real) < 2476979795053773 / 2251799813685248 - 3602879701896397 / 36028797018963968
   \<and> get_cached round_double
        (Stored (JObj [(''u'', cache_entry (3602879701896397 / 36028797018963968) (JStr ''v''))]))
        ''u'' 1 (2476979795053773 / 2251799813685248)
     = Inr (JStr ''v'')"
proof -
  let ?T = "3602879701896397 / 36028797018963968 :: real"
  let ?T' = "2476979795053773 / 2251799813685248 :: real"
  let ?f = "Stored (JObj [(''u'', cache_entry ?T (JStr ''v''))])"
  have s: "set_cached Missing ''u'' (JStr ''v'') ?T = Inr ?f"
    by (simp add: set_cached_def load_cache_def json_set_def save_cache_def)
  have d: "?T' - ?T = 36028797018963971 / 36028797018963968" by simp
  have l: "(of_int 1 :: real) < ?T' - ?T" by simp
  from s have "get_cached round_double ?f ''u'' 1 ?T'
               = Inr (if exceeds (round_double (?T' - ?T)) 1 then JNull else JStr ''v'')"
    by (rule get_after_set)
  then have g: "get_cached round_double ?f ''u'' 1 ?T' = Inr (JStr ''v'')"
    unfolding d round_double_boundary by (simp add: exceeds_def)
  from s l g show ?thesis by blast
qed

section \<open>Properties of the fetch coordinator\<close>

subsection \<open>The type of a column\<close>

lemma int_to_float_error: "int_to_float rnd n = Inl e \<Longrightarrow> e = OverflowError"
  by (auto simp: int_to_float_def split: if_splits fval.splits)

lemma scan_objects_error: "scan_objects rnd s vs = Inl e \<Longrightarrow> e = OverflowError"
proof (induction rnd s vs rule: scan_objects.induct)
  case (6 rnd s n vs)
  show ?case
  proof (cases "int_to_float rnd n")
    case (Inl e')
    with "6.prems" have "e = e'" by simp
    with Inl show ?thesis by (simp add: int_to_float_error)
  next
    case (Inr r)
    with 6 show ?thesis by (auto simp: Let_def split: if_splits)
  qed
qed simp_all

lemma scan_objects_fits:
  "\<forall>v\<in>set vs. fits rnd v \<Longrightarrow> \<exists>s'. scan_objects rnd s vs = Inr s'"
proof (induction rnd s vs rule: scan_objects.induct)
  case (6 rnd s n vs)
  then obtain r where r: "int_to_float rnd n = Inr r"
    by (auto simp: fits_def split: sum.splits)
  with 6 show ?case by (auto simp: Let_def)
qed simp_all

lemma maybe_convert_objects_result:
  "maybe_convert_objects rnd arr = Inr a \<Longrightarrow> a = arr \<or> a = map (to_float rnd) arr"
  by (auto simp: maybe_convert_objects_def split: sum.splits if_splits)

lemma maybe_convert_objects_error:
  "maybe_convert_objects rnd arr = Inl e \<Longrightarrow> e = OverflowError"
  by (auto simp: maybe_convert_objects_def scan_objects_error split: sum.splits)

lemma maybe_convert_objects_fits:
  "\<forall>v\<in>set arr. fits rnd v \<Longrightarrow> \<exists>a. maybe_convert_objects rnd arr = Inr a"
  using scan_objects_fits [of arr rnd seen_nothing]
  by (auto simp: maybe_convert_objects_def)

lemma convert_object_array_error:
  "convert_object_array rnd content = Inl e \<Longrightarrow> e = OverflowError"
proof (induction content)
  case Nil
  then show ?case by simp
next
  case (Cons p content)
  obtain c arr where p: "p = (c, arr)" by (cases p)
  from Cons show ?case unfolding p
    by (auto simp: maybe_convert_objects_error split: sum.splits)
qed

lemma convert_object_array_fits:
  "\<forall>p\<in>set content. \<forall>v\<in>set (snd p). fits rnd v \<Longrightarrow> \<exists>fr. convert_object_array rnd content = Inr fr"
proof (induction content)
  case Nil
  then show ?case by simp
next
  case (Cons p content)
  obtain c arr where p: "p = (c, arr)" by (cases p)
  from Cons.prems p have "\<forall>v\<in>set arr. fits rnd v" by simp
  then obtain a where a: "maybe_convert_objects rnd arr = Inr a"
    using maybe_convert_objects_fits by blast
  from Cons obtain fr where "convert_object_array rnd content = Inr fr" by auto
  with a show ?case unfolding p by simp
qed

lemma convert_object_array_lookup:
  "convert_object_array rnd content = Inr fr \<Longrightarrow>
     (case map_of content c of
        None \<Rightarrow> map_of fr c = None
      | Some arr \<Rightarrow> map_of fr c = Some arr \<or> map_of fr c = Some (map (to_float rnd) arr))"
proof (induction content arbitrary: fr)
  case Nil
  then show ?case by simp
next
  case (Cons p content)
  obtain c' arr where p: "p = (c', arr)" by (cases p)
  from Cons.prems obtain a fr' where a: "maybe_convert_objects rnd arr = Inr a"
    and f: "convert_object_array rnd content = Inr fr'" and fr: "fr = (c', a) # fr'"
    unfolding p by (auto split: sum.splits)
  from maybe_convert_objects_result [OF a] Cons.IH [OF f] show ?case
    unfolding p fr by (cases "c = c'") (auto split: option.splits)
qed

lemma convert_object_array_names:
  "convert_object_array rnd content = Inr fr \<Longrightarrow> map fst fr = map fst content"
proof (induction content arbitrary: fr)
  case Nil
  then show ?case by simp
next
  case (Cons p content)
  obtain c' arr where p: "p = (c', arr)" by (cases p)
  from Cons show ?case unfolding p by (auto split: sum.splits)
qed

subsection \<open>The columns of a frame\<close>

lemma fast_unique_fold:
  "set (foldl (\<lambda>acc k. if k \<in> set acc then acc else acc @ [k]) acc ks) = set acc \<union> set ks"
  by (induction ks arbitrary: acc) auto

lemma set_fast_unique: "set (fast_unique ks) = set ks"
  by (simp add: fast_unique_def fast_unique_fold)

lemma DataFrame_column:
  assumes "DataFrame rnd rows = Inr df"
  shows "(c \<notin> set (concat (map (map fst) rows)) \<longrightarrow> map_of df c = None)
       \<and> (c \<in> set (concat (map (map fst) rows)) \<longrightarrow>
            map_of df c = Some (dicts_to_array rows c)
            \<or> map_of df c = Some (map (to_float rnd) (dicts_to_array rows c)))"
proof -
  let ?keys = "fast_unique (concat (map (map fst) rows))"
  let ?content = "map (\<lambda>c. (c, dicts_to_array rows c)) ?keys"
  have m: "map_of ?content c = (if c \<in> set ?keys then Some (dicts_to_array rows c) else None)"
    by (simp add: map_of_map_restrict restrict_map_def)
  from assms have "convert_object_array rnd ?content = Inr df" by (simp add: DataFrame_def)
  from convert_object_array_lookup [OF this, of c] show ?thesis
    unfolding m by (auto simp: set_fast_unique split: if_splits)
qed

lemma DataFrame_names:
  assumes "DataFrame rnd rows = Inr df"
  shows "set (map fst df) = set (concat (map (map fst) rows))"
proof -
  let ?keys = "fast_unique (concat (map (map fst) rows))"
  from assms have "convert_object_array rnd (map (\<lambda>c. (c, dicts_to_array rows c)) ?keys) = Inr df"
    by (simp add: DataFrame_def)
  then have "map fst df = map fst (map (\<lambda>c. (c, dicts_to_array rows c)) ?keys)"
    by (rule convert_object_array_names)
  also have "\<dots> = ?keys" by (simp add: comp_def)
  finally show ?thesis by (simp only: set_fast_unique)
qed

lemma select_columns_lookup:
  "select_columns df cs = Inr fr \<Longrightarrow> map_of fr c = (if c \<in> set cs then map_of df c else None)"
proof (induction cs arbitrary: fr)
  case Nil
  then show ?case by simp
next
  case (Cons c' cs)
  then show ?case by (auto split: option.splits sum.splits)
qed

lemma select_columns_total:
  "set cs \<subseteq> fst ` set df \<Longrightarrow> \<exists>fr. select_columns df cs = Inr fr"
proof (induction cs)
  case Nil
  then show ?case by simp
next
  case (Cons c cs)
  then obtain fr where f: "select_columns df cs = Inr fr" by auto
  from Cons.prems have "c \<in> fst ` set df" by simp
  then obtain a where "map_of df c = Some a"
    by (metis domD dom_map_of_conv_image_fst)
  with f show ?case by simp
qed

lemma select_columns_names:
  "select_columns df cs = Inr fr \<Longrightarrow> map fst fr = cs"
proof (induction cs arbitrary: fr)
  case Nil
  then show ?case by simp
next
  case (Cons c' cs)
  then show ?case by (auto split: option.splits sum.splits)
qed

lemma sort_values_lookup:
  "map_of df key = Some keys \<Longrightarrow>
     \<exists>fr. sort_values df key = Inr fr
        \<and> (\<forall>c. map_of fr c = map_option (\<lambda>a. map (nth a) (argsort keys)) (map_of df c))
        \<and> map fst fr = map fst df"
  by (simp add: sort_values_def map_of_map comp_def case_prod_beta)

subsection \<open>The order of the rows\<close>

lemma insort_key_map:
  "insort_key f (g x) (map g ys) = map g (insort_key (\<lambda>y. f (g y)) x ys)"
  by (induction ys) simp_all

lemma sort_key_map: "sort_key f (map g xs) = map g (sort_key (\<lambda>y. f (g y)) xs)"
proof (induction xs)
  case Nil
  show ?case by simp
next
  case (Cons x xs)
  have "sort_key f (map g (x # xs)) = insort_key f (g x) (sort_key f (map g xs))" by simp
  also have "\<dots> = insort_key f (g x) (map g (sort_key (\<lambda>y. f (g y)) xs))"
    by (simp only: Cons.IH)
  also have "\<dots> = map g (insort_key (\<lambda>y. f (g y)) x (sort_key (\<lambda>y. f (g y)) xs))"
    by (rule insort_key_map)
  also have "\<dots> = map g (sort_key (\<lambda>y. f (g y)) (x # xs))" by simp
  finally show ?case .
qed

lemma insort_key_agree:
  "f x = g x \<Longrightarrow> \<forall>y\<in>set ys. f y = g y \<Longrightarrow> insort_key f x ys = insort_key g x ys"
  by (induction ys) simp_all

lemma sort_key_agree:
  "\<forall>x\<in>set xs. f x = g x \<Longrightarrow> sort_key f xs = sort_key g xs"
proof (induction xs)
  case Nil
  show ?case by simp
next
  case (Cons x xs)
  from Cons.prems have fx: "f x = g x" and rest: "\<forall>y\<in>set xs. f y = g y" by simp_all
  from rest have ih: "sort_key f xs = sort_key g xs" by (rule Cons.IH)
  from rest have "\<forall>y\<in>set (sort_key g xs). f y = g y" by simp
  with fx have "insort_key f x (sort_key g xs) = insort_key g x (sort_key g xs)"
    by (rule insort_key_agree)
  then show ?case by (simp add: ih)
qed

lemma argsort_targets:
  assumes "length keys = length completed"
    and "\<forall>i<length completed. keys ! i = JStr (fst (completed ! i))"
  shows "map (nth completed) (argsort keys) = sort_key fst completed"
proof -
  have "\<forall>i\<in>set [0..<length completed]. fst (completed ! i) = str_of (keys ! i)"
    using assms(2) by (simp add: str_of_def)
  then have "sort_key (\<lambda>i. fst (completed ! i)) [0..<length completed]
             = sort_key (\<lambda>i. str_of (keys ! i)) [0..<length completed]"
    by (rule sort_key_agree)
  then have "map (nth completed) (argsort keys)
             = map (nth completed) (sort_key (\<lambda>i. fst (completed ! i)) [0..<length completed])"
    by (simp add: argsort_def assms(1))
  also have "\<dots> = sort_key fst (map (nth completed) [0..<length completed])"
    by (simp only: sort_key_map)
  also have "\<dots> = sort_key fst completed" by (simp add: map_nth)
  finally show ?thesis .
qed

lemma argsort_range: "set (argsort keys) = {0..<length keys}" "length (argsort keys) = length keys"
  by (simp_all add: argsort_def)

subsection \<open>The rows\<close>

lemma color_cells_keeps:
  "color_cells classifs r cor = Inr r' \<Longrightarrow> length k < 10 \<Longrightarrow> map_of r' k = map_of r k"
proof -
  assume c: "color_cells classifs r cor = Inr r'" and k: "length k < 10"
  have k1: "k \<noteq> map lower_char cor @ ''_pacientes''" using k by auto
  have k2: "k \<noteq> map lower_char cor @ ''_tempo_medio''" using k by auto
  from c obtain p t where "r' = AList.update (map lower_char cor @ ''_tempo_medio'') t
                          (AList.update (map lower_char cor @ ''_pacientes'') p r)"
    by (auto simp: color_cells_def Let_def split: sum.splits)
  then show ?thesis using k1 k2 by (simp add: update_conv')
qed

lemma color_cells_dom:
  "color_cells classifs r cor = Inr r' \<Longrightarrow> k \<in> fst ` set r \<Longrightarrow> k \<in> fst ` set r'"
proof -
  assume c: "color_cells classifs r cor = Inr r'" and k: "k \<in> fst ` set r"
  from c obtain p t where "r' = AList.update (map lower_char cor @ ''_tempo_medio'') t
                          (AList.update (map lower_char cor @ ''_pacientes'') p r)"
    by (auto simp: color_cells_def Let_def split: sum.splits)
  then have "dom (map_of r) \<subseteq> dom (map_of r')"
    by (auto simp: update_conv')
  with k show ?thesis by (auto simp: dom_map_of_conv_image_fst)
qed

lemma colors_loop_keeps:
  "colors_loop classifs r cs = Inr r' \<Longrightarrow> length k < 10 \<Longrightarrow> map_of r' k = map_of r k"
proof (induction cs arbitrary: r)
  case Nil
  then show ?case by simp
next
  case (Cons cor cs)
  then obtain r1 where r1: "color_cells classifs r cor = Inr r1" "colors_loop classifs r1 cs = Inr r'"
    by (auto split: sum.splits)
  from Cons.IH [OF r1(2) Cons.prems(2)] color_cells_keeps [OF r1(1) Cons.prems(2)]
  show ?case by simp
qed

lemma colors_loop_dom:
  "colors_loop classifs r cs = Inr r' \<Longrightarrow> k \<in> fst ` set r \<Longrightarrow> k \<in> fst ` set r'"
proof (induction cs arbitrary: r)
  case Nil
  then show ?case by simp
next
  case (Cons cor cs)
  then obtain r1 where r1: "color_cells classifs r cor = Inr r1" "colors_loop classifs r1 cs = Inr r'"
    by (auto split: sum.splits)
  from color_cells_dom [OF r1(1) Cons.prems(2)] have "k \<in> fst ` set r1" .
  with r1(2) show ?case by (rule Cons.IH)
qed

lemma flatten_row_keys:
  assumes "flatten_row upa_nome url data = Inr r"
  shows "map_of r ''erro'' = None" and "map_of r ''upa'' = Some (JStr upa_nome)"
    and "map_of r ''url'' = Some (JStr url)" and "set main_columns \<subseteq> fst ` set r"
proof -
  from assms obtain classifs r0 where
    l: "colors_loop classifs r0 [''AZUL'', ''VERDE'', ''AMARELO'', ''LARANJA'', ''VERMELHO''] = Inr r"
    and r0: "map_of r0 ''erro'' = None" "map_of r0 ''upa'' = Some (JStr upa_nome)"
      "map_of r0 ''url'' = Some (JStr url)" "set main_columns \<subseteq> fst ` set r0"
    unfolding flatten_row_def main_columns_def by (auto split: sum.splits)
  from colors_loop_keeps [OF l, of "''erro''"] r0(1) show "map_of r ''erro'' = None" by simp
  from colors_loop_keeps [OF l, of "''upa''"] r0(2) show "map_of r ''upa'' = Some (JStr upa_nome)"
    by simp
  from colors_loop_keeps [OF l, of "''url''"] r0(3) show "map_of r ''url'' = Some (JStr url)"
    by simp
  from colors_loop_dom [OF l] r0(4) show "set main_columns \<subseteq> fst ` set r" by blast
qed

lemma fetch_one_keys:
  assumes "fetch_one pipeline nome url = Inr r"
  shows "map_of r ''erro'' = None" and "map_of r ''upa'' = Some (JStr nome)"
    and "map_of r ''url'' = Some (JStr url)" and "set main_columns \<subseteq> fst ` set r"
proof -
  from assms obtain data where "flatten_row nome url data = Inr r"
    by (auto simp: fetch_one_def split: sum.splits)
  from flatten_row_keys [OF this]
  show "map_of r ''erro'' = None" and "map_of r ''upa'' = Some (JStr nome)"
    and "map_of r ''url'' = Some (JStr url)" and "set main_columns \<subseteq> fst ` set r"
    by blast+
qed

lemma error_row_cells:
  "\<forall>k\<in>set metric_keys. map_of (error_row nome url msg) k = Some JNull"
  "map_of (error_row nome url msg) ''erro'' = Some (JStr msg)"
  "map_of (error_row nome url msg) ''upa'' = Some (JStr nome)"
  "map_of (error_row nome url msg) ''url'' = Some (JStr url)"
  "set main_columns \<subseteq> fst ` set (error_row nome url msg)"
  "\<forall>v\<in>snd ` set (error_row nome url msg). fits rnd v"
  by (simp_all add: metric_keys_def error_row_def main_columns_def fits_def)

lemma collect_row_keys:
  "map_of (collect_row pipeline t) ''upa'' = Some (JStr (fst t))"
  "map_of (collect_row pipeline t) ''url'' = Some (JStr (snd t))"
  "set main_columns \<subseteq> fst ` set (collect_row pipeline t)"
proof -
  show "map_of (collect_row pipeline t) ''upa'' = Some (JStr (fst t))"
    by (cases "fetch_one pipeline (fst t) (snd t)")
       (simp_all add: collect_row_def error_row_cells fetch_one_keys)
  show "map_of (collect_row pipeline t) ''url'' = Some (JStr (snd t))"
    by (cases "fetch_one pipeline (fst t) (snd t)")
       (simp_all add: collect_row_def error_row_cells fetch_one_keys)
  show "set main_columns \<subseteq> fst ` set (collect_row pipeline t)"
    by (cases "fetch_one pipeline (fst t) (snd t)")
       (simp_all only: collect_row_def sum.case error_row_cells fetch_one_keys)
qed

lemma to_float_str: "to_float rnd (JStr s) = JStr s"
  by (simp add: to_float_def)

lemma to_float_nan: "to_float rnd (JNonFinite NaN) = JNonFinite NaN"
  by (simp add: to_float_def)

lemma to_float_null: "to_float rnd JNull = JNonFinite NaN"
  by (simp add: to_float_def)

subsection \<open>The frame of a run\<close>

lemma dicts_to_array_nth:
  "i < length rows \<Longrightarrow>
     dicts_to_array rows c ! i = (case map_of (rows ! i) c of Some v \<Rightarrow> v | None \<Rightarrow> JNonFinite NaN)"
  by (simp add: dicts_to_array_def)

lemma length_dicts_to_array: "length (dicts_to_array rows c) = length rows"
  by (simp add: dicts_to_array_def)

lemma row_key_in_columns:
  "i < length rows \<Longrightarrow> map_of (rows ! i) c = Some v \<Longrightarrow> c \<in> set (concat (map (map fst) rows))"
proof -
  assume i: "i < length rows" and m: "map_of (rows ! i) c = Some v"
  from m have "(c, v) \<in> set (rows ! i)" by (rule map_of_SomeD)
  then have "c \<in> fst ` set (rows ! i)" by force
  moreover from i have "rows ! i \<in> set rows" by simp
  ultimately show ?thesis by auto
qed

lemma row_key_not_in_columns:
  "i < length rows \<Longrightarrow> c \<notin> set (concat (map (map fst) rows)) \<Longrightarrow> map_of (rows ! i) c = None"
  using row_key_in_columns by fastforce

lemma load_all_upas_steps:
  assumes "load_all_upas rnd pipeline max_workers completed = Inr fr"
  shows "\<exists>df df'. DataFrame rnd (map (collect_row pipeline) completed) = Inr df
           \<and> select_columns df (main_columns @ filter (\<lambda>c. c \<notin> set main_columns) (map fst df)) = Inr df'
           \<and> sort_values df' ''upa'' = Inr fr"
  using assms by (auto simp: load_all_upas_def Let_def split: if_splits sum.splits)

lemma select_all_columns:
  assumes "select_columns df (main_columns @ filter (\<lambda>c. c \<notin> set main_columns) (map fst df)) = Inr df'"
  shows "map_of df' c = map_of df c"
proof (cases "c \<in> fst ` set df")
  case True
  then have "c \<in> set (main_columns @ filter (\<lambda>c. c \<notin> set main_columns) (map fst df))" by auto
  with select_columns_lookup [OF assms, of c] show ?thesis by (simp only: if_True)
next
  case False
  then have n: "map_of df c = None" by (simp add: map_of_eq_None_iff)
  from select_columns_lookup [OF assms, of c] show ?thesis unfolding n by (simp split: if_splits)
qed

lemma frame_column:
  assumes d: "DataFrame rnd rows = Inr df" and c: "c \<in> set (concat (map (map fst) rows))"
  shows "\<exists>a. map_of df c = Some a \<and> length a = length rows
           \<and> (\<forall>i<length rows. a ! i = dicts_to_array rows c ! i
                                \<or> a ! i = to_float rnd (dicts_to_array rows c ! i))"
proof -
  from DataFrame_column [OF d, of c] c
  have "map_of df c = Some (dicts_to_array rows c)
        \<or> map_of df c = Some (map (to_float rnd) (dicts_to_array rows c))" by blast
  then show ?thesis
  proof
    assume "map_of df c = Some (dicts_to_array rows c)"
    then show ?thesis by (simp add: length_dicts_to_array)
  next
    assume "map_of df c = Some (map (to_float rnd) (dicts_to_array rows c))"
    then show ?thesis by (simp add: length_dicts_to_array)
  qed
qed

lemma frame_rows:
  assumes l: "load_all_upas rnd pipeline max_workers completed = Inr fr"
    and j: "j < length completed"
  shows "frame_len fr = length completed
       \<and> (\<exists>i<length completed. completed ! i = sort_key fst completed ! j \<and>
            (\<forall>c. case map_of (collect_row pipeline (completed ! i)) c of
                   Some v \<Rightarrow> frame_cell fr j c = Some v \<or> frame_cell fr j c = Some (to_float rnd v)
                 | None \<Rightarrow> frame_cell fr j c = None \<or> frame_cell fr j c = Some (JNonFinite NaN)))"
proof -
  let ?rows = "map (collect_row pipeline) completed"
  let ?N = "length completed"
  let ?K = "set (concat (map (map fst) ?rows))"
  from load_all_upas_steps [OF l] obtain df df' where
    d: "DataFrame rnd ?rows = Inr df" and
    s: "select_columns df (main_columns @ filter (\<lambda>c. c \<notin> set main_columns) (map fst df)) = Inr df'" and
    v: "sort_values df' ''upa'' = Inr fr" by blast
  have len: "length ?rows = ?N" by simp
  have row: "?rows ! i = collect_row pipeline (completed ! i)" if "i < ?N" for i
    using that by simp
  have upa_row: "map_of (?rows ! i) ''upa'' = Some (JStr (fst (completed ! i)))" if "i < ?N" for i
    using that by (simp only: row collect_row_keys)
  from j have j0: "0 < ?N" by (cases completed) simp_all
  have upaK: "''upa'' \<in> ?K"
    using row_key_in_columns [of 0 ?rows "''upa''"] upa_row [OF j0] j0 by (simp only: len)
  from frame_column [OF d upaK] obtain keys where
    k: "map_of df ''upa'' = Some keys" and kl: "length keys = ?N" and
    kc: "\<forall>i<length ?rows. keys ! i = dicts_to_array ?rows ''upa'' ! i
                           \<or> keys ! i = to_float rnd (dicts_to_array ?rows ''upa'' ! i)"
    unfolding len by blast
  have kv: "\<forall>i<?N. keys ! i = JStr (fst (completed ! i))"
  proof (intro allI impI)
    fix i assume i: "i < ?N"
    then have il: "i < length ?rows" by simp
    have "dicts_to_array ?rows ''upa'' ! i = JStr (fst (completed ! i))"
      unfolding dicts_to_array_nth [OF il] upa_row [OF i] by simp
    with kc il show "keys ! i = JStr (fst (completed ! i))" by (auto simp: to_float_str)
  qed
  let ?p = "argsort keys"
  from k have k': "map_of df' ''upa'' = Some keys" by (simp only: select_all_columns [OF s])
  from sort_values_lookup [OF k'] v have
    fl: "\<And>c. map_of fr c = map_option (\<lambda>a. map (nth a) ?p) (map_of df' c)" and
    fn: "map fst fr = map fst df'" by auto
  have pl: "length ?p = ?N" by (simp add: argsort_range kl)
  from j pl have "?p ! j \<in> set ?p" by simp
  then have pj: "?p ! j < ?N" by (simp add: argsort_range kl)
  have "map (nth completed) ?p ! j = sort_key fst completed ! j"
    using argsort_targets [OF kl kv] by simp
  with j pl have tj: "completed ! (?p ! j) = sort_key fst completed ! j" by simp
  have cells: "case map_of (collect_row pipeline (completed ! (?p ! j))) c of
                 Some v \<Rightarrow> frame_cell fr j c = Some v \<or> frame_cell fr j c = Some (to_float rnd v)
               | None \<Rightarrow> frame_cell fr j c = None \<or> frame_cell fr j c = Some (JNonFinite NaN)" for c
  proof (cases "c \<in> ?K")
    case True
    from frame_column [OF d True] obtain a where
      a: "map_of df c = Some a" and al: "length a = ?N" and
      ac: "\<forall>i<length ?rows. a ! i = dicts_to_array ?rows c ! i
                           \<or> a ! i = to_float rnd (dicts_to_array ?rows c ! i)"
      unfolding len by blast
    from a have "map_of fr c = Some (map (nth a) ?p)"
      by (simp add: fl select_all_columns [OF s])
    with j pl have fc: "frame_cell fr j c = Some (a ! (?p ! j))" by (simp add: frame_cell_def)
    from pj have pjl: "?p ! j < length ?rows" by simp
    from ac pjl have alt: "a ! (?p ! j) = dicts_to_array ?rows c ! (?p ! j)
                           \<or> a ! (?p ! j) = to_float rnd (dicts_to_array ?rows c ! (?p ! j))"
      by blast
    show ?thesis
    proof (cases "map_of (collect_row pipeline (completed ! (?p ! j))) c")
      case None
      then have "dicts_to_array ?rows c ! (?p ! j) = JNonFinite NaN"
        unfolding dicts_to_array_nth [OF pjl] row [OF pj] by simp
      with alt have "a ! (?p ! j) = JNonFinite NaN" by (auto simp: to_float_nan)
      with fc None show ?thesis by simp
    next
      case (Some v)
      then have "dicts_to_array ?rows c ! (?p ! j) = v"
        unfolding dicts_to_array_nth [OF pjl] row [OF pj] by simp
      with alt have "a ! (?p ! j) = v \<or> a ! (?p ! j) = to_float rnd v" by simp
      with fc Some show ?thesis by auto
    qed
  next
    case False
    with DataFrame_column [OF d, of c] have "map_of df c = None" by blast
    then have "map_of fr c = None" by (simp add: fl select_all_columns [OF s])
    then have fc: "frame_cell fr j c = None" by (simp add: frame_cell_def)
    from pj have pjl: "?p ! j < length ?rows" by simp
    from row_key_not_in_columns [OF pjl False]
    have "map_of (collect_row pipeline (completed ! (?p ! j))) c = None"
      unfolding row [OF pj] .
    with fc show ?thesis by simp
  qed
  have "map fst fr = main_columns @ filter (\<lambda>c. c \<notin> set main_columns) (map fst df)"
    using select_columns_names [OF s] fn by simp
  then obtain a rest where fr: "fr = (''upa'', a) # rest"
    by (cases fr) (auto simp: main_columns_def)
  from fl [of "''upa''"] k' have "map_of fr ''upa'' = Some (map (nth keys) ?p)" by simp
  with fr have "a = map (nth keys) ?p" by simp
  with fr pl have n: "frame_len fr = ?N" by (simp add: frame_len_def)
  from n pj tj cells show ?thesis by blast
qed

lemma load_all_upas_error:
  assumes "0 < max_workers" and "completed \<noteq> []"
    and "load_all_upas rnd pipeline max_workers completed = Inl e"
  shows "e = OverflowError"
proof (cases "DataFrame rnd (map (collect_row pipeline) completed)")
  case (Inl e')
  then have "e' = OverflowError" unfolding DataFrame_def by (rule convert_object_array_error)
  with Inl assms show ?thesis by (simp add: load_all_upas_def)
next
  case (Inr df)
  let ?rows = "map (collect_row pipeline) completed"
  let ?cs = "main_columns @ filter (\<lambda>c. c \<notin> set main_columns) (map fst df)"
  from assms(2) obtain t ts where c: "completed = t # ts" by (cases completed) auto
  have "set main_columns \<subseteq> fst ` set (collect_row pipeline t)" by (rule collect_row_keys)
  then have "set main_columns \<subseteq> set (concat (map (map fst) ?rows))" unfolding c by auto
  then have m: "set main_columns \<subseteq> fst ` set df" using DataFrame_names [OF Inr] by simp
  then have "set ?cs \<subseteq> fst ` set df" by auto
  then obtain df' where s: "select_columns df ?cs = Inr df'"
    using select_columns_total by blast
  from m have "''upa'' \<in> fst ` set df" by (auto simp: main_columns_def)
  then obtain keys where "map_of df ''upa'' = Some keys"
    by (metis domD dom_map_of_conv_image_fst)
  then have "map_of df' ''upa'' = Some keys" by (simp only: select_all_columns [OF s])
  from sort_values_lookup [OF this] obtain fr where "sort_values df' ''upa'' = Inr fr" by blast
  with Inr s assms show ?thesis by (simp add: load_all_upas_def Let_def)
qed

lemma DataFrame_fits:
  assumes "\<forall>r\<in>set rows. \<forall>v\<in>snd ` set r. fits rnd v"
  shows "\<exists>df. DataFrame rnd rows = Inr df"
proof -
  have "fits rnd (case map_of r c of Some v \<Rightarrow> v | None \<Rightarrow> JNonFinite NaN)" if "r \<in> set rows" for r c
  proof (cases "map_of r c")
    case None
    then show ?thesis by (simp add: fits_def)
  next
    case (Some v)
    then have "(c, v) \<in> set r" by (rule map_of_SomeD)
    then have "v \<in> snd ` set r" by force
    moreover from assms that have "\<forall>v\<in>snd ` set r. fits rnd v" by blast
    ultimately have "fits rnd v" by blast
    with Some show ?thesis by simp
  qed
  then have "\<forall>v\<in>set (dicts_to_array rows c). fits rnd v" for c
    by (auto simp: dicts_to_array_def)
  then have "\<forall>p\<in>set (map (\<lambda>c. (c, dicts_to_array rows c)) (fast_unique (concat (map (map fst) rows)))).
               \<forall>v\<in>set (snd p). fits rnd v" by auto
  then show ?thesis unfolding DataFrame_def by (rule convert_object_array_fits)
qed

lemma load_all_upas_fits:
  assumes "0 < max_workers" and "completed \<noteq> []"
    and f: "\<forall>t\<in>set completed. \<forall>r. fetch_one pipeline (fst t) (snd t) = Inr r \<longrightarrow> (\<forall>v\<in>snd ` set r. fits rnd v)"
  shows "\<exists>fr. load_all_upas rnd pipeline max_workers completed = Inr fr"
proof -
  have "\<forall>v\<in>snd ` set (collect_row pipeline t). fits rnd v" if t: "t \<in> set completed" for t
  proof (cases "fetch_one pipeline (fst t) (snd t)")
    case (Inl msg)
    show ?thesis unfolding collect_row_def Inl sum.case by (rule error_row_cells(6))
  next
    case (Inr r)
    with f t have "\<forall>v\<in>snd ` set r. fits rnd v" by blast
    then show ?thesis unfolding collect_row_def Inr sum.case .
  qed
  then have "\<forall>r\<in>set (map (collect_row pipeline) completed). \<forall>v\<in>snd ` set r. fits rnd v" by auto
  then obtain df where d: "DataFrame rnd (map (collect_row pipeline) completed) = Inr df"
    using DataFrame_fits by blast
  show ?thesis
  proof (cases "load_all_upas rnd pipeline max_workers completed")
    case (Inr fr)
    then show ?thesis by blast
  next
    case (Inl e)
    let ?rows = "map (collect_row pipeline) completed"
    let ?cs = "main_columns @ filter (\<lambda>c. c \<notin> set main_columns) (map fst df)"
    from assms(2) obtain t ts where c: "completed = t # ts" by (cases completed) auto
    have "set main_columns \<subseteq> fst ` set (collect_row pipeline t)" by (rule collect_row_keys)
    then have "set main_columns \<subseteq> set (concat (map (map fst) ?rows))" unfolding c by auto
    then have m: "set main_columns \<subseteq> fst ` set df" using DataFrame_names [OF d] by simp
    then have "set ?cs \<subseteq> fst ` set df" by auto
    then obtain df' where s: "select_columns df ?cs = Inr df'"
      using select_columns_total by blast
    from m have "''upa'' \<in> fst ` set df" by (auto simp: main_columns_def)
    then obtain keys where "map_of df ''upa'' = Some keys"
      by (metis domD dom_map_of_conv_image_fst)
    then have "map_of df' ''upa'' = Some keys" by (simp only: select_all_columns [OF s])
    from sort_values_lookup [OF this] obtain fr where "sort_values df' ''upa'' = Inr fr" by blast
    with d s assms(1) have "load_all_upas rnd pipeline max_workers completed = Inr fr"
      by (simp add: load_all_upas_def Let_def)
    then show ?thesis by blast
  qed
qed

lemma run_both_ok:
  "load_all_upas rnd both_ok 6 two_targets =
     Inr [(''upa'', [JStr ''A'', JStr ''B'']), (''updated_at'', [JNull, JNull]),
      (''pacientes_unidade'', [JInt 12, JInt 7]),
      (''pacientes_regulacao'', [JNull, JNull]),
      (''pacientes_at_medico'', [JNull, JNull]),
      (''url'', [JStr ''u1'', JStr ''u2'']),
      (''azul_pacientes'', [JNull, JNull]),
      (''azul_tempo_medio'', [JNull, JNull]),
      (''verde_pacientes'', [JNull, JNull]),
      (''verde_tempo_medio'', [JNull, JNull]),
      (''amarelo_pacientes'', [JNull, JNull]),
      (''amarelo_tempo_medio'', [JNull, JNull]),
      (''laranja_pacientes'', [JNull, JNull]),
      (''laranja_tempo_medio'', [JNull, JNull]),
      (''vermelho_pacientes'', [JNull, JNull]),
      (''vermelho_tempo_medio'', [JNull, JNull])]"
  by code_simp

lemma run_second_fails:
  "load_all_upas rnd second_fails 6 two_targets =
     Inr [(''upa'', [JStr ''A'', JStr ''B'']), (''updated_at'', [JNull, JNull]),
      (''pacientes_unidade'', [JFloat 12, JNonFinite NaN]),
      (''pacientes_regulacao'', [JNull, JNull]),
      (''pacientes_at_medico'', [JNull, JNull]),
      (''url'', [JStr ''u1'', JStr ''u2'']),
      (''azul_pacientes'', [JNull, JNull]),
      (''azul_tempo_medio'', [JNull, JNull]),
      (''verde_pacientes'', [JNull, JNull]),
      (''verde_tempo_medio'', [JNull, JNull]),
      (''amarelo_pacientes'', [JNull, JNull]),
      (''amarelo_tempo_medio'', [JNull, JNull]),
      (''laranja_pacientes'', [JNull, JNull]),
      (''laranja_tempo_medio'', [JNull, JNull]),
      (''vermelho_pacientes'', [JNull, JNull]),
      (''vermelho_tempo_medio'', [JNull, JNull]),
      (''erro'', [JNonFinite NaN, JStr ''timeout''])]"
  by code_simp

lemma fetch_one_second_fails:
  "fetch_one second_fails ''B'' ''u2'' = Inl ''timeout''"
  "fetch_one second_fails ''A'' ''u1'' =
     Inr [(''upa'', JStr ''A''), (''url'', JStr ''u1''), (''updated_at'', JNull),
          (''pacientes_unidade'', JInt 12), (''pacientes_regulacao'', JNull),
          (''pacientes_at_medico'', JNull),
          (''azul_pacientes'', JNull), (''azul_tempo_medio'', JNull),
          (''verde_pacientes'', JNull), (''verde_tempo_medio'', JNull),
          (''amarelo_pacientes'', JNull), (''amarelo_tempo_medio'', JNull),
          (''laranja_pacientes'', JNull), (''laranja_tempo_medio'', JNull),
          (''vermelho_pacientes'', JNull), (''vermelho_tempo_medio'', JNull)]"
  by code_simp+

lemma sorted_two_targets: "sort_key fst two_targets = [(''A'', ''u1''), (''B'', ''u2'')]"
  by code_simp

text \<open>
  C8, as amended: for a registry that is not empty and a positive number of workers,
  whatever the targets whose pipeline raises and in whatever order the futures complete,
  \<^verbatim>\<open>load_all_upas\<close> raises nothing but the \<^verbatim>\<open>OverflowError\<close> of an integer beyond the
  float range, and returns when no target reports such an integer. The frame it returns
  has one row per target, in the order of the names. The row of a target whose pipeline
  raised has a null (\<^verbatim>\<open>None\<close> or \<^verbatim>\<open>NaN\<close>) in the fourteen metric columns and the text of
  the exception under \<^verbatim>\<open>erro\<close>. The row of a target whose pipeline returned has no
  \<^verbatim>\<open>erro\<close> column or \<^verbatim>\<open>NaN\<close> in it, and each of its cells is the value of the returned
  row or that value as a float (\<^verbatim>\<open>None\<close> as \<^verbatim>\<open>NaN\<close>).
\<close>

theorem partial_failure_isolation:
  "0 < max_workers \<and> completed \<noteq> [] \<longrightarrow>
     (load_all_upas rnd pipeline max_workers completed = Inl e \<longrightarrow> e = OverflowError)
   \<and> ((\<forall>t\<in>set completed. \<forall>r. fetch_one pipeline (fst t) (snd t) = Inr r \<longrightarrow>
                                (\<forall>v\<in>snd ` set r. fits rnd v))
        \<longrightarrow> (\<exists>fr'. load_all_upas rnd pipeline max_workers completed = Inr fr'))
   \<and> (load_all_upas rnd pipeline max_workers completed = Inr fr \<longrightarrow>
        frame_len fr = length completed
      \<and> (\<forall>j<length completed.
           frame_cell fr j ''upa'' = Some (JStr (fst (sort_key fst completed ! j)))
         \<and> frame_cell fr j ''url'' = Some (JStr (snd (sort_key fst completed ! j)))
         \<and> (\<forall>msg. fetch_one pipeline (fst (sort_key fst completed ! j))
                                      (snd (sort_key fst completed ! j)) = Inl msg \<longrightarrow>
               (\<forall>c\<in>set metric_keys. \<exists>w. frame_cell fr j c = Some w \<and> isna w)
             \<and> frame_cell fr j ''erro'' = Some (JStr msg))
         \<and> (\<forall>r. fetch_one pipeline (fst (sort_key fst completed ! j))
                                    (snd (sort_key fst completed ! j)) = Inr r \<longrightarrow>
               (frame_cell fr j ''erro'' = None \<or> frame_cell fr j ''erro'' = Some (JNonFinite NaN))
             \<and> (\<forall>c v. map_of r c = Some v \<longrightarrow>
                    frame_cell fr j c = Some v \<or> frame_cell fr j c = Some (to_float rnd v)))))"
proof (intro impI conjI)
  assume a: "0 < max_workers \<and> completed \<noteq> []"
  {
    assume "load_all_upas rnd pipeline max_workers completed = Inl e"
    with a show "e = OverflowError" using load_all_upas_error by blast
  }
  {
    assume "\<forall>t\<in>set completed. \<forall>r. fetch_one pipeline (fst t) (snd t) = Inr r \<longrightarrow>
                                (\<forall>v\<in>snd ` set r. fits rnd v)"
    with a show "\<exists>fr'. load_all_upas rnd pipeline max_workers completed = Inr fr'"
      using load_all_upas_fits by blast
  }
  assume l: "load_all_upas rnd pipeline max_workers completed = Inr fr"
  from a obtain t ts where "completed = t # ts" by (cases completed) auto
  then have "0 < length completed" by simp
  from frame_rows [OF l this] show "frame_len fr = length completed" by blast
  show "\<forall>j<length completed.
           frame_cell fr j ''upa'' = Some (JStr (fst (sort_key fst completed ! j)))
         \<and> frame_cell fr j ''url'' = Some (JStr (snd (sort_key fst completed ! j)))
         \<and> (\<forall>msg. fetch_one pipeline (fst (sort_key fst completed ! j))
                                      (snd (sort_key fst completed ! j)) = Inl msg \<longrightarrow>
               (\<forall>c\<in>set metric_keys. \<exists>w. frame_cell fr j c = Some w \<and> isna w)
             \<and> frame_cell fr j ''erro'' = Some (JStr msg))
         \<and> (\<forall>r. fetch_one pipeline (fst (sort_key fst completed ! j))
                                    (snd (sort_key fst completed ! j)) = Inr r \<longrightarrow>
               (frame_cell fr j ''erro'' = None \<or> frame_cell fr j ''erro'' = Some (JNonFinite NaN))
             \<and> (\<forall>c v. map_of r c = Some v \<longrightarrow>
                    frame_cell fr j c = Some v \<or> frame_cell fr j c = Some (to_float rnd v)))"
  proof (intro allI impI)
    fix j assume j: "j < length completed"
    let ?t = "sort_key fst completed ! j"
    let ?row = "collect_row pipeline ?t"
    from frame_rows [OF l j] obtain i where
      "completed ! i = ?t" and
      "\<forall>c. case map_of (collect_row pipeline (completed ! i)) c of
              Some v \<Rightarrow> frame_cell fr j c = Some v \<or> frame_cell fr j c = Some (to_float rnd v)
            | None \<Rightarrow> frame_cell fr j c = None \<or> frame_cell fr j c = Some (JNonFinite NaN)"
      by blast
    then have cells: "case map_of ?row c of
              Some v \<Rightarrow> frame_cell fr j c = Some v \<or> frame_cell fr j c = Some (to_float rnd v)
            | None \<Rightarrow> frame_cell fr j c = None \<or> frame_cell fr j c = Some (JNonFinite NaN)" for c
      by simp
    have some: "frame_cell fr j c = Some v \<or> frame_cell fr j c = Some (to_float rnd v)"
      if "map_of ?row c = Some v" for c v
      using cells [of c] that by simp
    have none: "frame_cell fr j c = None \<or> frame_cell fr j c = Some (JNonFinite NaN)"
      if "map_of ?row c = None" for c
      using cells [of c] that by simp
    have 1: "frame_cell fr j ''upa'' = Some (JStr (fst ?t))"
      using some [OF collect_row_keys(1)] by (simp add: to_float_str)
    have 2: "frame_cell fr j ''url'' = Some (JStr (snd ?t))"
      using some [OF collect_row_keys(2)] by (simp add: to_float_str)
    have 3: "(\<forall>c\<in>set metric_keys. \<exists>w. frame_cell fr j c = Some w \<and> isna w)
             \<and> frame_cell fr j ''erro'' = Some (JStr msg)"
      if f: "fetch_one pipeline (fst ?t) (snd ?t) = Inl msg" for msg
    proof
      have r: "?row = error_row (fst ?t) (snd ?t) msg" by (simp add: collect_row_def f)
      show "\<forall>c\<in>set metric_keys. \<exists>w. frame_cell fr j c = Some w \<and> isna w"
      proof
        fix c assume "c \<in> set metric_keys"
        with error_row_cells(1) have "map_of ?row c = Some JNull" unfolding r by blast
        from some [OF this] show "\<exists>w. frame_cell fr j c = Some w \<and> isna w"
          by (auto simp: isna_def to_float_null)
      qed
      have "map_of ?row ''erro'' = Some (JStr msg)" unfolding r by (rule error_row_cells(2))
      from some [OF this] show "frame_cell fr j ''erro'' = Some (JStr msg)"
        by (simp add: to_float_str)
    qed
    have 4: "(frame_cell fr j ''erro'' = None \<or> frame_cell fr j ''erro'' = Some (JNonFinite NaN))
             \<and> (\<forall>c v. map_of r c = Some v \<longrightarrow>
                    frame_cell fr j c = Some v \<or> frame_cell fr j c = Some (to_float rnd v))"
      if f: "fetch_one pipeline (fst ?t) (snd ?t) = Inr r" for r
    proof
      have r: "?row = r" by (simp add: collect_row_def f)
      from fetch_one_keys(1) [OF f] have "map_of ?row ''erro'' = None" unfolding r .
      from none [OF this]
      show "frame_cell fr j ''erro'' = None \<or> frame_cell fr j ''erro'' = Some (JNonFinite NaN)" .
      show "\<forall>c v. map_of r c = Some v \<longrightarrow>
                    frame_cell fr j c = Some v \<or> frame_cell fr j c = Some (to_float rnd v)"
        using some unfolding r by blast
    qed
    from 1 2 3 4 show "frame_cell fr j ''upa'' = Some (JStr (fst ?t))
         \<and> frame_cell fr j ''url'' = Some (JStr (snd ?t))
         \<and> (\<forall>msg. fetch_one pipeline (fst ?t) (snd ?t) = Inl msg \<longrightarrow>
               (\<forall>c\<in>set metric_keys. \<exists>w. frame_cell fr j c = Some w \<and> isna w)
             \<and> frame_cell fr j ''erro'' = Some (JStr msg))
         \<and> (\<forall>r. fetch_one pipeline (fst ?t) (snd ?t) = Inr r \<longrightarrow>
               (frame_cell fr j ''erro'' = None \<or> frame_cell fr j ''erro'' = Some (JNonFinite NaN))
             \<and> (\<forall>c v. map_of r c = Some v \<longrightarrow>
                    frame_cell fr j c = Some v \<or> frame_cell fr j c = Some (to_float rnd v)))"
      by blast
  qed
qed

text \<open>
  C8, as stated, fails: the frame types each column from all its rows. When the second
  of two targets raises, the cell 12 of the first target's row becomes the float 12.0
  and the row gains the cell \<^verbatim>\<open>NaN\<close> under \<^verbatim>\<open>erro\<close>; when both return, the cell is the
  integer 12 and the frame has no column \<^verbatim>\<open>erro\<close>.
\<close>

theorem failure_alters_other_row:
  "run_cell (load_all_upas round_double both_ok 6 two_targets) 0 ''pacientes_unidade''
     = Inr (Some (JInt 12))
   \<and> run_cell (load_all_upas round_double second_fails 6 two_targets) 0 ''pacientes_unidade''
     = Inr (Some (JFloat 12))
   \<and> run_cell (load_all_upas round_double both_ok 6 two_targets) 0 ''erro'' = Inr None
   \<and> run_cell (load_all_upas round_double second_fails 6 two_targets) 0 ''erro''
     = Inr (Some (JNonFinite NaN))
   \<and> run_cell (load_all_upas round_double both_ok 6 two_targets) 0 ''upa'' = Inr (Some (JStr ''A''))
   \<and> run_cell (load_all_upas round_double second_fails 6 two_targets) 0 ''upa''
     = Inr (Some (JStr ''A''))"
  unfolding run_both_ok run_second_fails by (simp add: run_cell_def frame_cell_def)

theorem partial_failure_isolation_witness:
  "(0::int) < 6 \<and> two_targets \<noteq> []
   \<and> (\<exists>fr. load_all_upas round_double second_fails 6 two_targets = Inr fr
          \<and> frame_len fr = 2
          \<and> frame_cell fr 0 ''upa'' = Some (JStr ''A'')
          \<and> frame_cell fr 1 ''erro'' = Some (JStr ''timeout'')
          \<and> (frame_cell fr 0 ''erro'' = None \<or> frame_cell fr 0 ''erro'' = Some (JNonFinite NaN)))"
proof -
  have a: "(0::int) < 6 \<and> two_targets \<noteq> []" by (simp add: two_targets_def)
  have h: "\<forall>t\<in>set two_targets. \<forall>r. fetch_one second_fails (fst t) (snd t) = Inr r \<longrightarrow>
             (\<forall>v\<in>snd ` set r. fits round_double v)"
    by (auto simp: two_targets_def fetch_one_second_fails fits_def int_to_float_def)
  have len: "length two_targets = 2" by (simp add: two_targets_def)
  from partial_failure_isolation [of 6 two_targets round_double second_fails OverflowError "[]"] a h
  obtain fr where l: "load_all_upas round_double second_fails 6 two_targets = Inr fr" by blast
  from partial_failure_isolation [of 6 two_targets round_double second_fails OverflowError fr] a l
  have n: "frame_len fr = length two_targets" and
    q: "\<forall>j<length two_targets.
           frame_cell fr j ''upa'' = Some (JStr (fst (sort_key fst two_targets ! j)))
         \<and> frame_cell fr j ''url'' = Some (JStr (snd (sort_key fst two_targets ! j)))
         \<and> (\<forall>msg. fetch_one second_fails (fst (sort_key fst two_targets ! j))
                                      (snd (sort_key fst two_targets ! j)) = Inl msg \<longrightarrow>
               (\<forall>c\<in>set metric_keys. \<exists>w. frame_cell fr j c = Some w \<and> isna w)
             \<and> frame_cell fr j ''erro'' = Some (JStr msg))
         \<and> (\<forall>r. fetch_one second_fails (fst (sort_key fst two_targets ! j))
                                    (snd (sort_key fst two_targets ! j)) = Inr r \<longrightarrow>
               (frame_cell fr j ''erro'' = None \<or> frame_cell fr j ''erro'' = Some (JNonFinite NaN))
             \<and> (\<forall>c v. map_of r c = Some v \<longrightarrow>
                    frame_cell fr j c = Some v \<or> frame_cell fr j c = Some (to_float round_double v)))"
    by blast+
  have j0: "0 < length two_targets" and j1: "1 < length two_targets" by (simp_all add: len)
  note q0 = q [THEN spec, of 0, THEN mp, OF j0]
  note q1 = q [THEN spec, of 1, THEN mp, OF j1]
  from q0 [THEN conjunct1] have u: "frame_cell fr 0 ''upa'' = Some (JStr ''A'')"
    by (simp add: sorted_two_targets)
  from q1 [THEN conjunct2, THEN conjunct2, THEN conjunct1, THEN spec, of "''timeout''"]
  have e1: "frame_cell fr 1 ''erro'' = Some (JStr ''timeout'')"
    by (simp add: sorted_two_targets fetch_one_second_fails)
  from q0 [THEN conjunct2, THEN conjunct2, THEN conjunct2, THEN spec,
           of "projr (fetch_one second_fails ''A'' ''u1'')"]
  have e0: "frame_cell fr 0 ''erro'' = None \<or> frame_cell fr 0 ''erro'' = Some (JNonFinite NaN)"
    by (simp add: sorted_two_targets fetch_one_second_fails)
  from n have n2: "frame_len fr = 2" by (simp only: len)
  from l n2 u e1 e0
  have "\<exists>fr. load_all_upas round_double second_fails 6 two_targets = Inr fr
          \<and> frame_len fr = 2
          \<and> frame_cell fr 0 ''upa'' = Some (JStr ''A'')
          \<and> frame_cell fr 1 ''erro'' = Some (JStr ''timeout'')
          \<and> (frame_cell fr 0 ''erro'' = None \<or> frame_cell fr 0 ''erro'' = Some (JNonFinite NaN))"
    by (intro exI [of _ fr] conjI)
  from conjI [OF a this] show ?thesis by (simp only: conj_assoc simp_thms)
qed

section \<open>Properties of the direct HTTP fetch\<close>

lemma and_then_assoc: "and_then xs (and_then ys res) = and_then (xs @ ys) res"
  by (simp add: and_then_def)

lemma and_then_Nil: "and_then [] res = res"
  by (simp add: and_then_def)

lemma backoff_delay_nonneg: "0 \<le> b \<Longrightarrow> \<forall>k. 0 \<le> jitter k \<Longrightarrow> \<not> backoff_delay b jitter a < 0"
proof -
  assume b: "0 \<le> b" and j: "\<forall>k. 0 \<le> jitter k"
  have "0 \<le> b * 2 ^ (a - 1)" using b by simp
  moreover have "0 \<le> jitter a * 0.2" using j by simp
  ultimately show ?thesis unfolding backoff_delay_def by linarith
qed

lemma requests_loop_failed:
  assumes "0 \<le> b" "\<forall>k. 0 \<le> jitter k"
  shows "\<forall>a\<in>set as. attempt_failed (net a) \<Longrightarrow>
    requests_loop net jitter b url (as @ rest) ls le =
      and_then (concat (map (attempt_events b jitter) as))
        (requests_loop net jitter b url rest
           (foldl status_after ls (map net as)) (foldl exc_after le (map net as)))"
proof (induction as arbitrary: ls le)
  case Nil
  show ?case by (simp add: and_then_Nil)
next
  case (Cons a as)
  have nd: "\<not> backoff_delay b jitter a < 0" using assms by (rule backoff_delay_nonneg)
  from Cons.prems have fa: "attempt_failed (net a)" and rest: "\<forall>x\<in>set as. attempt_failed (net x)"
    by simp_all
  show ?case
  proof (cases "net a")
    case (GetRaised m)
    then show ?thesis using nd Cons.IH [OF rest] by (simp add: and_then_assoc)
  next
    case (Response status body)
    with fa have "400 \<le> status \<and> status < 600" by simp
    with Response show ?thesis using nd Cons.IH [OF rest] by (simp add: and_then_assoc)
  qed
qed

lemma requests_loop_ok:
  assumes "net k = Response status body" "\<not> (400 \<le> status \<and> status < 600)"
    "\<not> backoff_delay b jitter k < 0"
  shows "requests_loop net jitter b url (k # rest) ls le
        = (Inr \<lparr> fr_url = url, status_code = status, html = body,
                     via = ''requests'', iframe_url = None \<rparr>, attempt_events b jitter k)"
proof -
  from assms(2) have "status \<notin> set [429, 503, 502, 504]" by auto
  with assms show ?thesis by auto
qed

text \<open>
  C3, as amended: with a backoff that is not negative, an attempt fails when the request
  raises or the response has a status from 400 to 599 (429, 502, 503 and 504 among
  them), and every failed attempt is followed by the next one, after the backoff, while
  attempts remain. When all \<open>retries\<close> attempts fail, the fetch raises an error with the
  status of the last response (0 when there was none) and the last exception caught
  (none when every response had one of the four statuses). When attempt \<open>k\<close> is the
  first one with another status, the fetch returns its response after \<open>k\<close> requests.
\<close>

theorem requests_retry:
  assumes "0 \<le> backoff_base" and "\<forall>k. 0 \<le> jitter k"
  shows "((\<forall>k\<in>set [1..<Suc retries]. attempt_failed (net k)) \<longrightarrow>
            fetch_html_requests net jitter url retries backoff_base =
              (Inl (RuntimeError url (foldl status_after 0 (map net [1..<Suc retries]))
                                     (foldl exc_after None (map net [1..<Suc retries]))),
               concat (map (attempt_events backoff_base jitter) [1..<Suc retries])))
       \<and> (1 \<le> k \<and> k \<le> retries \<and> (\<forall>j\<in>set [1..<k]. attempt_failed (net j))
            \<and> net k = Response status body \<and> \<not> (400 \<le> status \<and> status < 600) \<longrightarrow>
            fetch_html_requests net jitter url retries backoff_base =
              (Inr \<lparr> fr_url = url, status_code = status, html = body,
                     via = ''requests'', iframe_url = None \<rparr>,
               concat (map (attempt_events backoff_base jitter) [1..<Suc k])))"
proof (intro conjI impI)
  assume "\<forall>k\<in>set [1..<Suc retries]. attempt_failed (net k)"
  then show "fetch_html_requests net jitter url retries backoff_base =
              (Inl (RuntimeError url (foldl status_after 0 (map net [1..<Suc retries]))
                                     (foldl exc_after None (map net [1..<Suc retries]))),
               concat (map (attempt_events backoff_base jitter) [1..<Suc retries]))"
    using requests_loop_failed [OF assms, of "[1..<Suc retries]" net url "[]" 0 None]
    by (simp add: fetch_html_requests_def and_then_def)
next
  assume a: "1 \<le> k \<and> k \<le> retries \<and> (\<forall>j\<in>set [1..<k]. attempt_failed (net j))
            \<and> net k = Response status body \<and> \<not> (400 \<le> status \<and> status < 600)"
  then have "[1..<Suc retries] = [1..<k] @ [k..<Suc retries]"
    using upt_add_eq_append [of 1 k "Suc retries - k"] by simp
  moreover from a have "[k..<Suc retries] = k # [Suc k..<Suc retries]"
    by (simp add: upt_conv_Cons)
  ultimately have split: "[1..<Suc retries] = [1..<k] @ k # [Suc k..<Suc retries]"
    by simp
  have nd: "\<not> backoff_delay backoff_base jitter k < 0" using assms by (rule backoff_delay_nonneg)
  from a have f: "\<forall>j\<in>set [1..<k]. attempt_failed (net j)" by blast
  from a have nk: "net k = Response status body" and ok: "\<not> (400 \<le> status \<and> status < 600)"
    by blast+
  have "requests_loop net jitter backoff_base url (k # [Suc k..<Suc retries]) ls le
        = (Inr \<lparr> fr_url = url, status_code = status, html = body,
                     via = ''requests'', iframe_url = None \<rparr>, attempt_events backoff_base jitter k)" for ls le
    using nk ok nd by (rule requests_loop_ok)
  then show "fetch_html_requests net jitter url retries backoff_base =
              (Inr \<lparr> fr_url = url, status_code = status, html = body,
                     via = ''requests'', iframe_url = None \<rparr>,
               concat (map (attempt_events backoff_base jitter) [1..<Suc k]))"
    using requests_loop_failed [OF assms f, of url "k # [Suc k..<Suc retries]" 0 None] a
    unfolding fetch_html_requests_def split
    by (simp add: and_then_def)
qed

theorem requests_retry_witness:
  "fetch_html_requests (\<lambda>k. if k < 3 then Response 503 [] else Response 200 ''ok'') (\<lambda>k. 0) ''u'' 3 1
     = (Inr \<lparr> fr_url = ''u'', status_code = 200, html = ''ok'', via = ''requests'', iframe_url = None \<rparr>,
        [Got 1, Slept 2, Got 2, Slept 4, Got 3])
   \<and> fetch_html_requests (\<lambda>k. Response 503 []) (\<lambda>k. 0) ''u'' 2 1
     = (Inl (RuntimeError ''u'' 503 None), [Got 1, Slept 2, Got 2])"
proof -
  have b: "(0::real) \<le> 1" and j: "\<forall>k::nat. (0::real) \<le> (\<lambda>k. 0) k" by simp_all
  note t1 = requests_retry [OF b j, of 3 "\<lambda>k. if k < 3 then Response 503 [] else Response 200 ''ok''" "''u''" 3 200 "''ok''"]
  note t2 = requests_retry [OF b j, of 2 "\<lambda>k. Response 503 []" "''u''" 1 0 "[]"]
  from t1 t2 show ?thesis
    by (simp add: upt_rec attempt_events_def backoff_delay_def)
qed

text \<open>
  C3, as stated, fails: a response with status 404 does not end the fetch, all three
  attempts are made; a response with status 304 is returned as a result; and after
  three responses with status 503 the error carries no exception.
\<close>

theorem non_retryable_status_retried:
  "fetch_html_requests (\<lambda>k. Response 404 []) (\<lambda>k. 0) ''u'' 3 1
     = (Inl (RuntimeError ''u'' 404 (Some (HTTPError 404))), [Got 1, Slept 2, Got 2, Slept 4, Got 3])
   \<and> fetch_html_requests (\<lambda>k. Response 304 []) (\<lambda>k. 0) ''u'' 3 1
     = (Inr \<lparr> fr_url = ''u'', status_code = 304, html = [], via = ''requests'', iframe_url = None \<rparr>, [Got 1])
   \<and> fetch_html_requests (\<lambda>k. Response 503 []) (\<lambda>k. 0) ''u'' 3 1
     = (Inl (RuntimeError ''u'' 503 None), [Got 1, Slept 2, Got 2, Slept 4, Got 3])"
  by (simp add: fetch_html_requests_def upt_rec and_then_def attempt_events_def backoff_delay_def)

end
